theory Spec2Isabelle
  imports Main "HOL-Library.Multiset"
begin

section \<open>Strings, exceptions and the Python string primitives the code calls\<close>

text \<open>
  A Python \<open>str\<close> is modelled as a \<open>string\<close>; a \<open>char\<close> stands for a code point below
  256. Exceptions are values of \<open>py_error\<close>; a function that may raise returns
  \<open>py_error + 'a\<close>, with \<open>Inl\<close> for the exception.
\<close>

datatype py_error = IOError | UnboundLocalError | AttributeError | KeyError | OSError

definition TAB :: char where
  "TAB = CHR 0x09"

definition LF :: char where
  "LF = CHR 0x0A"

definition CR :: char where
  "CR = CHR 0x0D"

text \<open>\<open>str.isspace\<close>, also the class \<open>\s\<close> of \<open>re\<close>, on the code points below 256.\<close>

definition isspace :: "char \<Rightarrow> bool" where
  "isspace c = (c \<in> set [CHR 0x09, CHR 0x0A, CHR 0x0B, CHR 0x0C, CHR 0x0D,
                          CHR 0x1C, CHR 0x1D, CHR 0x1E, CHR 0x1F, CHR 0x20,
                          CHR 0x85, CHR 0xA0])"

text \<open>The class \<open>\d\<close> of \<open>re\<close> on the code points below 256.\<close>

definition isdigit :: "char \<Rightarrow> bool" where
  "isdigit c = (c \<in> set ''0123456789'')"

definition startswith :: "string \<Rightarrow> string \<Rightarrow> bool" where
  "startswith s p = (take (length p) s = p)"

definition endswith :: "string \<Rightarrow> string \<Rightarrow> bool" where
  "endswith s p = (length p \<le> length s \<and> drop (length s - length p) s = p)"

text \<open>\<open>line.rstrip()\<close>: every trailing whitespace character is removed.\<close>

definition rstrip :: "string \<Rightarrow> string" where
  "rstrip s = rev (dropWhile isspace (rev s))"

text \<open>
  \<open>s.replace(old, '')\<close>: the occurrences of \<open>old\<close> are removed from left to right,
  without overlap. With an empty \<open>old\<close> Python inserts the (empty) replacement between
  the characters, which leaves the string as it is.
\<close>

fun str_remove :: "string \<Rightarrow> string \<Rightarrow> string" where
  "str_remove old [] = []"
| "str_remove old (c # cs) =
     (if old \<noteq> [] \<and> startswith (c # cs) old
      then str_remove old (drop (length old - 1) cs)
      else c # str_remove old cs)"

text \<open>\<open>re.search(p, line)\<close> for a pattern \<open>p\<close> without metacharacters.\<close>

primrec re_search_literal :: "string \<Rightarrow> string \<Rightarrow> bool" where
  "re_search_literal p [] = (p = [])"
| "re_search_literal p (c # cs) = (startswith (c # cs) p \<or> re_search_literal p cs)"

section \<open>The Annotation Line Source: \<open>import_file\<close>\<close>

text \<open>
  A file opened in text mode translates \<open>\r\n\<close> and \<open>\r\<close> to \<open>\n\<close>; iterating over it
  yields the lines, each with its terminator.
\<close>

fun universal_newlines :: "string \<Rightarrow> string" where
  "universal_newlines (c # d # cs) =
     (if c = CR \<and> d = LF then LF # universal_newlines cs
      else if c = CR then LF # universal_newlines (d # cs)
      else c # universal_newlines (d # cs))"
| "universal_newlines [c] = (if c = CR then [LF] else [c])"
| "universal_newlines [] = []"

fun iter_lines :: "string \<Rightarrow> string \<Rightarrow> string list" where
  "iter_lines cur [] = (if cur = [] then [] else [cur])"
| "iter_lines cur (c # cs) =
     (if c = LF then (cur @ [LF]) # iter_lines [] cs else iter_lines (cur @ [c]) cs)"

definition file_lines :: "string \<Rightarrow> string list" where
  "file_lines txt = iter_lines [] (universal_newlines txt)"

text \<open>The file system maps a path to the text of the file there.\<close>

type_synonym filesystem = "string \<rightharpoonup> string"

definition import_file :: "filesystem \<Rightarrow> string \<Rightarrow> py_error + string list" where
  "import_file fs input_file =
     (case fs input_file of
        None \<Rightarrow> Inl IOError
      | Some f_in \<Rightarrow> Inr (map rstrip (file_lines f_in)))"

section \<open>The Transcript-Sequence Extractor: the loop of \<open>parse_augustus\<close>\<close>

subsection \<open>The noise filter\<close>

definition noise_patterns :: "string list" where
  "noise_patterns =
     [''# Evidence for and against this transcript:'',
      ''# % of transcript supported by hints'',
      ''# CDS exons'',
      ''# CDS introns'',
      ''# 5'UTR exons and introns:'',
      ''# 3'UTR exons and introns:'',
      ''# hint groups fully obeyed:'',
      ''# incompatible hint groups:'',
      ''#      E:'',
      ''#     RM:'']"

definition is_noise :: "string \<Rightarrow> bool" where
  "is_noise line =
     (if re_search_literal ''# Evidence for and against this transcript:'' line then True
      else if re_search_literal ''# % of transcript supported by hints'' line then True
      else if re_search_literal ''# CDS exons'' line then True
      else if re_search_literal ''# CDS introns'' line then True
      else if re_search_literal ''# 5'UTR exons and introns:'' line then True
      else if re_search_literal ''# 3'UTR exons and introns:'' line then True
      else if re_search_literal ''# hint groups fully obeyed:'' line then True
      else if re_search_literal ''# incompatible hint groups:'' line then True
      else if re_search_literal ''#      E:'' line then True
      else if re_search_literal ''#     RM:'' line then True
      else False)"

subsection \<open>The three regular expressions\<close>

text \<open>
  \<open>reg_transcript = \ttranscript\t.+ID=([^;]+)\<close>, searched: the leftmost position of
  the literal wins; \<open>.+\<close> is greedy and backtracks, so the last \<open>ID=\<close> that is followed
  by a character other than \<open>;\<close> is taken; \<open>.\<close> matches everything but a newline; the
  group is the longest run without \<open>;\<close>. The result is \<open>group(1)\<close>.
\<close>

definition match_id :: "string \<Rightarrow> string option" where
  "match_id s =
     (if startswith s ''ID='' \<and> takeWhile (\<lambda>c. c \<noteq> CHR '';'') (drop 3 s) \<noteq> []
      then Some (takeWhile (\<lambda>c. c \<noteq> CHR '';'') (drop 3 s)) else None)"

fun match_dotstar_id :: "string \<Rightarrow> string option" where
  "match_dotstar_id [] = None"
| "match_dotstar_id (c # cs) =
     (case (if c \<noteq> LF then match_dotstar_id cs else None) of
        Some g \<Rightarrow> Some g
      | None \<Rightarrow> match_id (c # cs))"

fun match_dotplus_id :: "string \<Rightarrow> string option" where
  "match_dotplus_id [] = None"
| "match_dotplus_id (c # cs) = (if c \<noteq> LF then match_dotstar_id cs else None)"

definition transcript_lit :: string where
  "transcript_lit = TAB # ''transcript'' @ [TAB]"

fun reg_transcript :: "string \<Rightarrow> string option" where
  "reg_transcript [] = None"
| "reg_transcript (c # cs) =
     (if startswith (c # cs) transcript_lit
      then (case match_dotplus_id (drop (length transcript_lit) (c # cs)) of
              Some g \<Rightarrow> Some g
            | None \<Rightarrow> reg_transcript cs)
      else reg_transcript cs)"

text \<open>
  \<open>reg_prot_start = ^# protein sequence = \[(\S+)\]*\<close>: the introducer at the start of
  the line and at least one character after it that is not whitespace. Only whether it
  matches is used.
\<close>

definition introducer :: string where
  "introducer = ''# protein sequence = [''"

definition reg_prot_start :: "string \<Rightarrow> bool" where
  "reg_prot_start line =
     (startswith line introducer \<and>
      (case drop (length introducer) line of [] \<Rightarrow> False | c # _ \<Rightarrow> \<not> isspace c))"

text \<open>
  \<open>reg_prot_end = \]$\<close>: a \<open>]\<close> at the end of the line, or before a newline that ends
  the line.
\<close>

definition reg_prot_end :: "string \<Rightarrow> bool" where
  "reg_prot_end line = (endswith line '']'' \<or> endswith line ('']'' @ [LF]))"

subsection \<open>The parser state and one iteration of the loop\<close>

text \<open>
  \<open>transcript_id\<close> is a local variable that has no value before the first transcript
  line: \<open>None\<close> is the unbound variable, and reading it raises \<open>UnboundLocalError\<close>.
  \<open>d_seq\<close> is a \<open>defaultdict(str)\<close>; a dictionary keeps its keys in insertion order,
  which the stable sort of the writer observes, so it is an association list.
\<close>

record pstate =
  transcript_id :: "string option"
  prot_tag :: nat
  d_seq :: "(string \<times> string) list"

text \<open>\<open>d_seq[k] += v\<close>: a missing key is created with the empty string, at the end.\<close>

fun dict_add :: "string \<Rightarrow> string \<Rightarrow> (string \<times> string) list \<Rightarrow> (string \<times> string) list" where
  "dict_add k v [] = [(k, v)]"
| "dict_add k v ((k', w) # d) =
     (if k' = k then (k', w @ v) # d else (k', w) # dict_add k v d)"

definition accumulate :: "string \<Rightarrow> pstate \<Rightarrow> py_error + pstate" where
  "accumulate prot_seq s =
     (case transcript_id s of
        None \<Rightarrow> Inl UnboundLocalError
      | Some t \<Rightarrow> Inr (s\<lparr>d_seq := dict_add t prot_seq (d_seq s)\<rparr>))"

definition step_detect :: "string \<Rightarrow> pstate \<Rightarrow> pstate" where
  "step_detect line s =
     (case reg_transcript line of
        Some g \<Rightarrow> s\<lparr>transcript_id := Some g\<rparr>
      | None \<Rightarrow> if reg_prot_start line then s\<lparr>prot_tag := 1\<rparr> else s)"

definition step_end :: "string \<Rightarrow> pstate \<Rightarrow> py_error + pstate" where
  "step_end line s =
     (if reg_prot_end line
      then (case accumulate (str_remove '']'' (str_remove ''# '' (str_remove introducer line))) s of
              Inl e \<Rightarrow> Inl e
            | Inr s' \<Rightarrow> Inr (s'\<lparr>prot_tag := 0\<rparr>))
      else Inr s)"

definition step_cont :: "string \<Rightarrow> pstate \<Rightarrow> py_error + pstate" where
  "step_cont line s =
     (if prot_tag s = 1
      then accumulate (str_remove ''# '' (str_remove introducer line)) s
      else Inr s)"

definition parse_line :: "pstate \<Rightarrow> string \<Rightarrow> py_error + pstate" where
  "parse_line s line =
     (if is_noise line then Inr s
      else (case step_end line (step_detect line s) of
              Inl e \<Rightarrow> Inl e
            | Inr s' \<Rightarrow> step_cont line s'))"

fun parse_lines :: "pstate \<Rightarrow> string list \<Rightarrow> py_error + pstate" where
  "parse_lines s [] = Inr s"
| "parse_lines s (line # rest) =
     (case parse_line s line of
        Inl e \<Rightarrow> Inl e
      | Inr s' \<Rightarrow> parse_lines s' rest)"

definition init_state :: pstate where
  "init_state = \<lparr>transcript_id = None, prot_tag = 0, d_seq = []\<rparr>"

definition extract_sequences :: "string list \<Rightarrow> py_error + (string \<times> string) list" where
  "extract_sequences augustus_gff3 =
     (case parse_lines init_state augustus_gff3 of
        Inl e \<Rightarrow> Inl e
      | Inr s \<Rightarrow> Inr (d_seq s))"

section \<open>The FASTA Writer: the second half of \<open>parse_augustus\<close>\<close>

text \<open>
  \<open>int(...)\<close> of a string of decimal digits (the bound that recent Python versions
  put on the number of digits is not modelled).
\<close>

definition digit_val :: "char \<Rightarrow> int" where
  "digit_val c = int (of_char c) - 48"

definition py_int :: "string \<Rightarrow> int" where
  "py_int ds = foldl (\<lambda>n c. 10 * n + digit_val c) 0 ds"

text \<open>
  The sort key's pattern \<open>g(\d+)\.t\d+$\<close>, matched at the start of a string: a \<open>g\<close>, the
  longest run of digits (not empty), \<open>.t\<close>, the longest run of digits (not empty), and
  then the end of the string or a newline that ends it. Taking fewer digits in either
  run cannot lead to a match, so the greedy choice is the only one. The result is
  \<open>group(1)\<close>.
\<close>

definition match_gene_at :: "string \<Rightarrow> string option" where
  "match_gene_at s =
     (case s of
        [] \<Rightarrow> None
      | c # cs \<Rightarrow>
          if c = CHR ''g'' \<and> takeWhile isdigit cs \<noteq> [] \<and>
             startswith (dropWhile isdigit cs) ''.t'' \<and>
             takeWhile isdigit (drop 2 (dropWhile isdigit cs)) \<noteq> [] \<and>
             (dropWhile isdigit (drop 2 (dropWhile isdigit cs)) = [] \<or>
              dropWhile isdigit (drop 2 (dropWhile isdigit cs)) = [LF])
          then Some (takeWhile isdigit cs)
          else None)"

text \<open>\<open>re.search\<close>: the leftmost position at which the pattern matches.\<close>

fun reg_gene_search :: "string \<Rightarrow> string option" where
  "reg_gene_search [] = None"
| "reg_gene_search (c # cs) =
     (case match_gene_at (c # cs) of
        Some g \<Rightarrow> Some g
      | None \<Rightarrow> reg_gene_search cs)"

text \<open>
  The key function \<open>lambda x: int(re.search(...).group(1))\<close>: where the search finds
  nothing it returns \<open>None\<close>, and \<open>None.group\<close> raises \<open>AttributeError\<close>.
\<close>

definition gene_key :: "string \<times> string \<Rightarrow> py_error + int" where
  "gene_key x =
     (case reg_gene_search (fst x) of
        None \<Rightarrow> Inl AttributeError
      | Some g \<Rightarrow> Inr (py_int g))"

text \<open>
  \<open>sorted(d_seq.items(), key=...)\<close> computes the key of every item first, so one item
  without a key raises before anything is ordered; the sort is stable, as \<open>sort_key\<close>
  is. The default of \<open>key_or_zero\<close> is never used for an item that has a key.
\<close>

definition key_or_zero :: "string \<times> string \<Rightarrow> int" where
  "key_or_zero x = (case gene_key x of Inl e \<Rightarrow> 0 | Inr k \<Rightarrow> k)"

definition d_seq_sorted :: "(string \<times> string) list \<Rightarrow> py_error + (string \<times> string) list" where
  "d_seq_sorted items =
     (if list_all (\<lambda>x. gene_key x \<noteq> Inl AttributeError) items
      then Inr (sort_key key_or_zero items)
      else Inl AttributeError)"

text \<open>
  The \<open>while i < len(prot_seq)\<close> loop: the texts of the rows written, each the slice
  \<open>prot_seq[i:i + 60]\<close> and a newline.
\<close>

function write_rows :: "string \<Rightarrow> nat \<Rightarrow> string list" where
  "write_rows prot_seq i =
     (if i < length prot_seq
      then (take 60 (drop i prot_seq) @ [LF]) # write_rows prot_seq (i + 60)
      else [])"
  by pat_completeness auto
termination
  by (relation "measure (\<lambda>(prot_seq, i). length prot_seq - i)") auto

definition write_entry :: "string \<times> string \<Rightarrow> string list" where
  "write_entry x = (''>'' @ fst x @ [LF]) # write_rows (snd x) 0"

text \<open>
  \<open>os.path.join\<close> with a relative second component. The output file is opened, and so
  emptied, before the items are sorted: when the sort raises, an empty file is left.
\<close>

definition path_join :: "string \<Rightarrow> string \<Rightarrow> string" where
  "path_join a b = (if a = [] \<or> last a = CHR ''/'' then a @ b else a @ ''/'' @ b)"

definition write_fasta ::
  "filesystem \<Rightarrow> string \<Rightarrow> (string \<times> string) list \<Rightarrow> filesystem \<times> py_error option" where
  "write_fasta fs outfile d =
     (case d_seq_sorted d of
        Inl e \<Rightarrow> (fs(outfile \<mapsto> []), Some e)
      | Inr items \<Rightarrow> (fs(outfile \<mapsto> concat (concat (map write_entry items))), None))"

definition parse_augustus :: "filesystem \<Rightarrow> string \<Rightarrow> filesystem \<times> py_error option" where
  "parse_augustus fs output_dir =
     (case import_file fs (path_join output_dir ''augustus.gff3'') of
        Inl e \<Rightarrow> (fs, Some e)
      | Inr augustus_gff3 \<Rightarrow>
          (case extract_sequences augustus_gff3 of
             Inl e \<Rightarrow> (fs, Some e)
           | Inr d \<Rightarrow> write_fasta fs (path_join output_dir ''augustus.faa'') d))"

section \<open>The Tool Invoker: \<open>run_augustus\<close> and \<open>run_blastp\<close>\<close>

text \<open>
  The operating system is a parameter: \<open>glob\<close>, the size field of \<open>os.stat\<close>
  (\<open>None\<close> where \<open>os.stat\<close> raises) and the effect of \<open>os.system\<close> on a world of type
  \<open>'w\<close>. The state of a run is the world, the calls made to the two loggers, in
  order, and the commands handed to \<open>os.system\<close>, in order. \<open>D_CONF\<close>, which
  \<open>import_config\<close> builds, is a parameter too; a missing key raises \<open>KeyError\<close>.
\<close>

datatype logger = logger_time | logger_txt

record 'w os_api =
  os_glob :: "'w \<Rightarrow> string \<Rightarrow> string list"
  os_stat_size :: "'w \<Rightarrow> string \<Rightarrow> nat option"
  os_system :: "string \<Rightarrow> 'w \<Rightarrow> 'w"

record 'w run_state =
  world :: 'w
  debug_log :: "(logger \<times> string) list"
  executed :: "string list"

definition debug :: "logger \<Rightarrow> string \<Rightarrow> 'w run_state \<Rightarrow> 'w run_state" where
  "debug lg msg st = st\<lparr>debug_log := debug_log st @ [(lg, msg)]\<rparr>"

text \<open>The two statements \<open>logger_txt.debug('[Run] %s', command)\<close> and \<open>os.system(command)\<close>.\<close>

definition run_command :: "'w os_api \<Rightarrow> string \<Rightarrow> 'w run_state \<Rightarrow> 'w run_state" where
  "run_command os command st =
     (let st1 = debug logger_txt (''[Run] '' @ command) st
      in st1\<lparr>world := os_system os command (world st1), executed := executed st1 @ [command]\<rparr>)"

definition augustus_command :: "string \<Rightarrow> string \<Rightarrow> string \<Rightarrow> string \<Rightarrow> string" where
  "augustus_command augustus_path masked_assembly species augustus_output =
     augustus_path @ '' --uniqueGeneId=true --singlestrand=true --gff3=on '' @ masked_assembly @
     '' --species='' @ species @ '' --stopCodonExcludedFromCDS=false --softmasking=1 > '' @
     augustus_output"

definition run_augustus ::
  "'w os_api \<Rightarrow> (string \<rightharpoonup> string) \<Rightarrow> string \<Rightarrow> string \<Rightarrow> string \<Rightarrow> 'w run_state
     \<Rightarrow> py_error + 'w run_state" where
  "run_augustus os d_conf masked_assembly output_dir species st =
     (let augustus_output = path_join output_dir ''augustus.gff3'';
          st1 = debug logger_time ''START: Augustus'' st
      in if os_glob os (world st1) augustus_output = []
         then (case d_conf ''AUGUSTUS_PATH'' of
                 None \<Rightarrow> Inl KeyError
               | Some augustus_path \<Rightarrow>
                   Inr (debug logger_time ''DONE : Augustus''
                          (run_command os
                             (augustus_command augustus_path masked_assembly species augustus_output)
                             st1)))
         else Inr (debug logger_time ''DONE : Augustus''
                     (debug logger_txt ''[Note] Running Augustus has already been finished'' st1)))"

text \<open>\<open>str(n)\<close> of an integer, for \<open>'{}'.format(num_cores)\<close>.\<close>

fun nat_digits :: "nat \<Rightarrow> string" where
  "nat_digits n =
     (if n < 10 then [char_of (48 + n)]
      else nat_digits (n div 10) @ [char_of (48 + n mod 10)])"

definition py_str :: "int \<Rightarrow> string" where
  "py_str n = (if n < 0 then CHR ''-'' # nat_digits (nat (- n)) else nat_digits (nat n))"

text \<open>
  \<open>os.path.splitext(p)[0]\<close>: the path up to its last dot, when that dot comes after the
  last \<open>/\<close> and some character between the two is not a dot; the path itself otherwise.
\<close>

definition rfind :: "char \<Rightarrow> string \<Rightarrow> nat option" where
  "rfind c p =
     (if c \<in> set p then Some (length p - 1 - length (takeWhile (\<lambda>x. x \<noteq> c) (rev p))) else None)"

definition splitext_root :: "string \<Rightarrow> string" where
  "splitext_root p =
     (case rfind (CHR ''.'') p of
        None \<Rightarrow> p
      | Some dotIndex \<Rightarrow>
          (let filenameIndex = (case rfind (CHR ''/'') p of None \<Rightarrow> 0 | Some sepIndex \<Rightarrow> sepIndex + 1)
           in if filenameIndex \<le> dotIndex \<and>
                 list_ex (\<lambda>c. c \<noteq> CHR ''.'') (take (dotIndex - filenameIndex) (drop filenameIndex p))
              then take dotIndex p
              else p))"

definition EVALUE_CUTOFF :: string where
  "EVALUE_CUTOFF = ''1e-5''"

text \<open>The first half of \<open>run_blastp\<close>: the index of the database.\<close>

definition makeblastdb_command :: "string \<Rightarrow> string \<Rightarrow> string \<Rightarrow> string" where
  "makeblastdb_command makeblastdb_bin db_fasta log_file1 =
     makeblastdb_bin @ '' -in '' @ db_fasta @ '' -dbtype prot > '' @ log_file1 @ '' 2>&1''"

definition makeblastdb_step ::
  "'w os_api \<Rightarrow> (string \<rightharpoonup> string) \<Rightarrow> string \<Rightarrow> string \<Rightarrow> 'w run_state \<Rightarrow> py_error + 'w run_state" where
  "makeblastdb_step os d_conf db_fasta log_dir st =
     (case d_conf ''MAKEBLASTDB_PATH'' of
        None \<Rightarrow> Inl KeyError
      | Some makeblastdb_bin \<Rightarrow>
          (let blast_index_file = db_fasta @ ''.*phr'';
               log_file1 = path_join log_dir ''makeblastdb_blastp.log''
           in if os_glob os (world st) blast_index_file = []
              then Inr (run_command os (makeblastdb_command makeblastdb_bin db_fasta log_file1) st)
              else Inr (debug logger_txt ''[Note] Running makeblastdb has been already finished'' st)))"

text \<open>
  The second half: the search. \<open>os.stat\<close> is called only when \<open>glob\<close> finds the output.
  The \<open>if\<close> has no \<open>else\<close>: when the output is there and not empty, nothing happens.
\<close>

definition blastp_command ::
  "string \<Rightarrow> string \<Rightarrow> string \<Rightarrow> string \<Rightarrow> int \<Rightarrow> string \<Rightarrow> string" where
  "blastp_command blastp_bin query_fasta db_fasta blastp_output num_cores log_file2 =
     blastp_bin @ '' -outfmt '' @ [CHR 0x22] @ ''6 qseqid sseqid length qlen slen bitscore'' @
     [CHR 0x22] @ '' -query '' @ query_fasta @ '' -db '' @ db_fasta @ '' -out '' @ blastp_output @
     '' -num_threads '' @ py_str num_cores @ '' -evalue '' @ EVALUE_CUTOFF @ '' > '' @ log_file2 @
     '' 2>&1''"

definition blastp_step ::
  "'w os_api \<Rightarrow> (string \<rightharpoonup> string) \<Rightarrow> string \<Rightarrow> string \<Rightarrow> string \<Rightarrow> int \<Rightarrow> 'w run_state
     \<Rightarrow> py_error + 'w run_state" where
  "blastp_step os d_conf query_fasta db_fasta log_dir num_cores st =
     (case d_conf ''BLASTP_PATH'' of
        None \<Rightarrow> Inl KeyError
      | Some blastp_bin \<Rightarrow>
          (let input_base = splitext_root query_fasta;
               blastp_output = input_base @ ''.blastp'';
               log_file2 = path_join log_dir ''blastp.log'';
               command =
                 blastp_command blastp_bin query_fasta db_fasta blastp_output num_cores log_file2
           in if os_glob os (world st) blastp_output = []
              then Inr (run_command os command st)
              else (case os_stat_size os (world st) blastp_output of
                      None \<Rightarrow> Inl OSError
                    | Some st_size \<Rightarrow>
                        if st_size = 0 then Inr (run_command os command st) else Inr st)))"

definition run_blastp ::
  "'w os_api \<Rightarrow> (string \<rightharpoonup> string) \<Rightarrow> string \<Rightarrow> string \<Rightarrow> string \<Rightarrow> int \<Rightarrow> 'w run_state
     \<Rightarrow> py_error + 'w run_state" where
  "run_blastp os d_conf query_fasta db_fasta log_dir num_cores st =
     (case makeblastdb_step os d_conf db_fasta log_dir st of
        Inl e \<Rightarrow> Inl e
      | Inr st1 \<Rightarrow> blastp_step os d_conf query_fasta db_fasta log_dir num_cores st1)"

text \<open>
  An operating system to run the invokers on: the world is the list of the files with
  their sizes; \<open>glob\<close> finds a path that is there, and every file \<open>F.phr\<close> for the
  pattern \<open>F.*phr\<close> (only the patterns the invokers use are covered); a command
  creates the file that the tool it names writes.
\<close>

definition example_glob :: "(string \<times> nat) list \<Rightarrow> string \<Rightarrow> string list" where
  "example_glob w pat =
     filter (\<lambda>f. f = pat \<or> (endswith pat ''.*phr'' \<and>
                              f = take (length pat - 5) pat @ ''.phr''))
       (map fst w)"

definition put_file :: "string \<Rightarrow> (string \<times> nat) list \<Rightarrow> (string \<times> nat) list" where
  "put_file p w = (p, 1000) # filter (\<lambda>x. fst x \<noteq> p) w"

definition example_system :: "string \<Rightarrow> (string \<times> nat) list \<Rightarrow> (string \<times> nat) list" where
  "example_system command w =
     (if re_search_literal ''augustus.gff3'' command then put_file ''out/augustus.gff3'' w
      else if re_search_literal ''-dbtype prot'' command then put_file ''db.faa.phr'' w
      else put_file ''query.blastp'' w)"

definition example_os :: "(string \<times> nat) list os_api" where
  "example_os =
     \<lparr>os_glob = example_glob, os_stat_size = (\<lambda>w p. map_of w p), os_system = example_system\<rparr>"

definition example_conf :: "string \<rightharpoonup> string" where
  "example_conf =
     [''AUGUSTUS_PATH'' \<mapsto> ''augustus'', ''MAKEBLASTDB_PATH'' \<mapsto> ''makeblastdb'',
      ''BLASTP_PATH'' \<mapsto> ''blastp'']"

definition example_state :: "(string \<times> nat) list run_state" where
  "example_state =
     \<lparr>world = [(''db.faa.phr'', 1000), (''query.blastp'', 1000)], debug_log = [], executed = []\<rparr>"

section \<open>The spec's reading of the line source\<close>

text \<open>
  The spec has the line source strip the trailing line terminators and nothing else;
  this is that reading, to compare \<open>rstrip\<close> with.
\<close>

definition strip_line_terminators :: "string \<Rightarrow> string" where
  "strip_line_terminators s = rev (dropWhile (\<lambda>c. c = LF \<or> c = CR) (rev s))"

section \<open>Well-formed annotation input\<close>

text \<open>
  The shape of the predictor's output that the statements about whole inputs assume.
  A data segment of a protein-sequence block is a non-empty run of characters without
  whitespace, \<open>#\<close> and \<open>]\<close>. A block of segments \<open>d1 ... dn\<close> is the one line
  \<open># protein sequence = [d1]\<close>, or the line \<open># protein sequence = [d1\<close>, the lines
  \<open># di\<close>, and the line \<open># dn]\<close>.
\<close>

definition seq_data :: "string \<Rightarrow> bool" where
  "seq_data d = (d \<noteq> [] \<and> list_all (\<lambda>c. \<not> isspace c \<and> c \<noteq> CHR ''#'' \<and> c \<noteq> CHR '']'') d)"

fun cont_lines :: "string list \<Rightarrow> string list" where
  "cont_lines [] = []"
| "cont_lines [d] = [''# '' @ d @ '']'']"
| "cont_lines (d # ds) = (''# '' @ d) # cont_lines ds"

fun block_lines :: "string list \<Rightarrow> string list" where
  "block_lines [] = []"
| "block_lines [d] = [introducer @ d @ '']'']"
| "block_lines (d # ds) = (introducer @ d) # cont_lines ds"

text \<open>
  A line is idle when none of the three regular expressions matches it. A gene block is
  a transcript line, idle lines (the other features), the sequence block, and idle
  lines again; the annotation is a run of idle lines and then gene blocks.
\<close>

definition idle :: "string \<Rightarrow> bool" where
  "idle line = (reg_transcript line = None \<and> \<not> reg_prot_start line \<and> \<not> reg_prot_end line)"

record gene_block =
  gb_line :: string
  gb_id :: string
  gb_features :: "string list"
  gb_segments :: "string list"
  gb_trailer :: "string list"

definition wf_block :: "gene_block \<Rightarrow> bool" where
  "wf_block b =
     (\<not> is_noise (gb_line b) \<and> reg_transcript (gb_line b) = Some (gb_id b) \<and>
      \<not> reg_prot_end (gb_line b) \<and>
      list_all idle (gb_features b) \<and>
      gb_segments b \<noteq> [] \<and> list_all seq_data (gb_segments b) \<and>
      list_all idle (gb_trailer b))"

definition render :: "gene_block \<Rightarrow> string list" where
  "render b = gb_line b # gb_features b @ block_lines (gb_segments b) @ gb_trailer b"

text \<open>An annotation with one gene, used to instantiate the statements.\<close>

definition example_transcript_line :: string where
  "example_transcript_line =
     ''chr1'' @ [TAB] @ ''AUGUSTUS'' @ [TAB] @ ''transcript'' @ [TAB] @ ''1'' @ [TAB] @ ''99'' @
     [TAB] @ ''0.9'' @ [TAB] @ ''+'' @ [TAB] @ ''.'' @ [TAB] @ ''ID=foo.g1.t1;Parent=foo.g1''"

definition example_block :: gene_block where
  "example_block =
     \<lparr>gb_line = example_transcript_line, gb_id = ''foo.g1.t1'',
      gb_features = [''chr1'' @ [TAB] @ ''AUGUSTUS'' @ [TAB] @ ''CDS'' @ [TAB] @ ''1'' @ [TAB] @ ''99''],
      gb_segments = [''MSEK'', ''QRST'', ''UVWY''],
      gb_trailer = [''# end gene foo.g1'']\<rparr>"

definition example_lines :: "string list" where
  "example_lines =
     [''# start gene foo.g1'',
      example_transcript_line,
      ''chr1'' @ [TAB] @ ''AUGUSTUS'' @ [TAB] @ ''CDS'' @ [TAB] @ ''1'' @ [TAB] @ ''99'',
      ''# CDS exons: 1/1'',
      ''# protein sequence = [MSEK'',
      ''# QRST'',
      ''# UVWY]'',
      ''# end gene foo.g1'']"

section \<open>Facts about the string primitives\<close>

lemma startswith_Cons:
  "startswith (c # cs) (p # ps) = (c = p \<and> startswith cs ps)"
  by (simp add: startswith_def)

lemma startswith_Nil [simp]: "startswith s []"
  by (simp add: startswith_def)

lemma startswith_Nil_left [simp]: "startswith [] p = (p = [])"
  by (auto simp add: startswith_def)

lemma startswith_append [simp]: "startswith (p @ s) p"
  by (simp add: startswith_def)

lemma startswith_set: "startswith s p \<Longrightarrow> set p \<subseteq> set s"
  unfolding startswith_def by (metis set_take_subset)

lemma str_remove_notin:
  "old \<noteq> [] \<Longrightarrow> hd old \<notin> set s \<Longrightarrow> str_remove old s = s"
proof (induction s)
  case Nil
  then show ?case by simp
next
  case (Cons c cs)
  then obtain p ps where old: "old = p # ps" by (cases old) auto
  with Cons show ?case by (auto simp add: startswith_Cons)
qed

lemma str_remove_prefix:
  "old \<noteq> [] \<Longrightarrow> str_remove old (old @ s) = str_remove old s"
  by (cases old) (simp_all add: startswith_Cons)

lemma str_remove_single: "str_remove [x] s = filter (\<lambda>c. c \<noteq> x) s"
  by (induction s) (simp_all add: startswith_Cons)

lemma reg_transcript_no_tab: "TAB \<notin> set l \<Longrightarrow> reg_transcript l = None"
  by (induction l) (auto simp add: transcript_lit_def startswith_Cons)

lemma re_search_literal_hash:
  "c \<notin> set s \<Longrightarrow> re_search_literal (c # p) s = False"
  by (induction s) (auto simp add: startswith_Cons)

lemma isspace_simps [simp]: "isspace (CHR '' '')" "isspace TAB" "isspace LF" "isspace CR"
  by (simp_all add: isspace_def TAB_def LF_def CR_def)

lemma seq_data_ne: "seq_data d \<Longrightarrow> d \<noteq> []"
  by (simp add: seq_data_def)

lemma seq_data_ok:
  "seq_data d \<Longrightarrow> c \<in> set d \<Longrightarrow> \<not> isspace c \<and> c \<noteq> CHR ''#'' \<and> c \<noteq> CHR '']''"
  by (simp add: seq_data_def list_all_iff)

lemma seq_data_notin:
  assumes "seq_data d" "isspace c \<or> c = CHR ''#'' \<or> c = CHR '']''"
  shows "c \<notin> set d"
proof
  assume "c \<in> set d"
  from seq_data_ok [OF assms(1) this] assms(2) show False by simp
qed

lemma seq_dataD:
  assumes "seq_data d"
  shows "d \<noteq> []" "CHR '' '' \<notin> set d" "TAB \<notin> set d" "LF \<notin> set d"
    "CHR ''#'' \<notin> set d" "CHR '']'' \<notin> set d"
    "\<not> isspace (hd d)" "last d \<noteq> CHR '']''" "last d \<noteq> LF"
proof -
  show ne: "d \<noteq> []" using assms by (rule seq_data_ne)
  show "CHR '' '' \<notin> set d" using assms by (rule seq_data_notin) simp
  show "TAB \<notin> set d" using assms by (rule seq_data_notin) simp
  show lf: "LF \<notin> set d" using assms by (rule seq_data_notin) simp
  show "CHR ''#'' \<notin> set d" using assms by (rule seq_data_notin) simp
  show br: "CHR '']'' \<notin> set d" using assms by (rule seq_data_notin) simp
  have "hd d \<in> set d" using ne by (rule hd_in_set)
  from seq_data_ok [OF assms this] show "\<not> isspace (hd d)" by simp
  have l: "last d \<in> set d" using ne by (rule last_in_set)
  show "last d \<noteq> CHR '']''" using l br by metis
  show "last d \<noteq> LF" using l lf by metis
qed

lemma not_noise_data_line:
  assumes "CHR ''#'' \<notin> set x" "CHR '' '' \<notin> set x"
  shows "\<not> is_noise (''# '' @ x)"
  using assms unfolding is_noise_def
  by (auto simp add: re_search_literal_hash startswith_Cons dest!: startswith_set)

lemma not_noise_intro_line:
  assumes "CHR ''#'' \<notin> set x"
  shows "\<not> is_noise (introducer @ x)"
  using assms unfolding is_noise_def introducer_def
  by (simp add: re_search_literal_hash startswith_Cons)

lemma endswith_last: "endswith s p \<Longrightarrow> p \<noteq> [] \<Longrightarrow> last s = last p"
  unfolding endswith_def by (metis last_drop drop_eq_Nil not_less)

lemma reg_prot_end_closed [simp]: "reg_prot_end (x @ '']'')"
  by (simp add: reg_prot_end_def endswith_def)

lemma reg_prot_end_open:
  "s \<noteq> [] \<Longrightarrow> last s \<noteq> CHR '']'' \<Longrightarrow> last s \<noteq> LF \<Longrightarrow> \<not> reg_prot_end s"
  unfolding reg_prot_end_def by (auto dest!: endswith_last)

lemma reg_prot_start_intro:
  "d \<noteq> [] \<Longrightarrow> reg_prot_start (introducer @ d @ e) = (\<not> isspace (hd d))"
  by (cases d) (simp_all add: reg_prot_start_def)

lemma reg_prot_start_data_line:
  "CHR '' '' \<notin> set x \<Longrightarrow> \<not> reg_prot_start (''# '' @ x)"
  unfolding reg_prot_start_def introducer_def
  by (auto simp add: startswith_Cons dest!: startswith_set)

lemma clean_intro:
  assumes "CHR ''#'' \<notin> set x"
  shows "str_remove ''# '' (str_remove introducer (introducer @ x)) = x"
proof -
  have "str_remove introducer (introducer @ x) = str_remove introducer x"
    by (rule str_remove_prefix) (simp add: introducer_def)
  also have "\<dots> = x"
    using assms by (intro str_remove_notin) (simp_all add: introducer_def)
  finally show ?thesis
    using assms by (simp add: str_remove_notin)
qed

lemma clean_data_line:
  assumes "CHR ''#'' \<notin> set x" "CHR '' '' \<notin> set x"
  shows "str_remove ''# '' (str_remove introducer (''# '' @ x)) = x"
proof -
  have a: "\<not> startswith (''# '' @ x) introducer"
    using assms(2) unfolding introducer_def
    by (auto simp add: startswith_Cons dest!: startswith_set)
  have b: "str_remove introducer x = x"
    using assms by (intro str_remove_notin) (simp_all add: introducer_def)
  have "str_remove introducer (''# '' @ x) = ''# '' @ x"
    using a b by (simp add: startswith_Cons introducer_def)
  moreover have "str_remove ''# '' (''# '' @ x) = str_remove ''# '' x"
    by (rule str_remove_prefix) simp
  moreover have "str_remove ''# '' x = x"
    using assms by (simp add: str_remove_notin)
  ultimately show ?thesis by simp
qed

lemma clean_bracket:
  "CHR '']'' \<notin> set d \<Longrightarrow> str_remove '']'' (d @ '']'') = d"
  by (auto simp add: str_remove_single filter_id_conv)

section \<open>One line of the extractor\<close>

lemma dict_add_twice: "dict_add k b (dict_add k a d) = dict_add k (a @ b) d"
  by (induction d) auto

lemma dict_add_fresh: "k \<notin> fst ` set d \<Longrightarrow> dict_add k v d = d @ [(k, v)]"
  by (induction d) auto

lemma parse_line_noise: "is_noise line \<Longrightarrow> parse_line s line = Inr s"
  by (simp add: parse_line_def)

lemma parse_line_idle:
  assumes "reg_transcript line = None" "\<not> reg_prot_start line" "\<not> reg_prot_end line"
    and "prot_tag s = 0"
  shows "parse_line s line = Inr s"
  using assms by (simp add: parse_line_def step_detect_def step_end_def step_cont_def)

lemma parse_line_transcript:
  assumes "\<not> is_noise line" "reg_transcript line = Some g" "\<not> reg_prot_end line"
    and "prot_tag s = 0"
  shows "parse_line s line = Inr (s\<lparr>transcript_id := Some g\<rparr>)"
  using assms by (simp add: parse_line_def step_detect_def step_end_def step_cont_def)

lemma parse_line_end:
  assumes "\<not> is_noise line" "reg_transcript line = None" "reg_prot_end line"
    and "transcript_id s = Some t"
    and "str_remove '']'' (str_remove ''# '' (str_remove introducer line)) = d"
  shows "parse_line s line = Inr (s\<lparr>d_seq := dict_add t d (d_seq s), prot_tag := 0\<rparr>)"
  using assms
  by (simp add: parse_line_def step_detect_def step_end_def step_cont_def accumulate_def)

lemma parse_line_start:
  assumes "\<not> is_noise line" "reg_transcript line = None" "\<not> reg_prot_end line"
    and "reg_prot_start line" "transcript_id s = Some t"
    and "str_remove ''# '' (str_remove introducer line) = d"
  shows "parse_line s line = Inr (s\<lparr>prot_tag := 1, d_seq := dict_add t d (d_seq s)\<rparr>)"
  using assms
  by (simp add: parse_line_def step_detect_def step_end_def step_cont_def accumulate_def)

lemma parse_line_cont:
  assumes "\<not> is_noise line" "reg_transcript line = None" "\<not> reg_prot_end line"
    and "prot_tag s = 1" "transcript_id s = Some t"
    and "str_remove ''# '' (str_remove introducer line) = d"
  shows "parse_line s line = Inr (s\<lparr>d_seq := dict_add t d (d_seq s)\<rparr>)"
  using assms
  by (simp add: parse_line_def step_detect_def step_end_def step_cont_def accumulate_def)

lemma parse_line_single:
  assumes "seq_data d" "transcript_id s = Some t"
  shows "parse_line s (introducer @ d @ '']'') =
           Inr (s\<lparr>d_seq := dict_add t d (d_seq s), prot_tag := 0\<rparr>)"
proof -
  note D = seq_dataD [OF assms(1)]
  have n: "\<not> is_noise (introducer @ d @ '']'')"
    using D by (intro not_noise_intro_line) simp
  have t: "reg_transcript (introducer @ d @ '']'') = None"
    using D by (intro reg_transcript_no_tab) (simp add: introducer_def TAB_def)
  have c: "str_remove '']'' (str_remove ''# '' (str_remove introducer (introducer @ d @ '']''))) = d"
    using D by (simp add: clean_intro clean_bracket)
  have e: "reg_prot_end (introducer @ d @ '']'')"
    using reg_prot_end_closed [of "introducer @ d"] by simp
  show ?thesis
    using n t e assms(2) c by (rule parse_line_end)
qed

lemma parse_line_first:
  assumes "seq_data d" "transcript_id s = Some t"
  shows "parse_line s (introducer @ d) =
           Inr (s\<lparr>prot_tag := 1, d_seq := dict_add t d (d_seq s)\<rparr>)"
proof -
  note D = seq_dataD [OF assms(1)]
  have n: "\<not> is_noise (introducer @ d)"
    using D by (intro not_noise_intro_line) simp
  have t: "reg_transcript (introducer @ d) = None"
    using D by (intro reg_transcript_no_tab) (simp add: introducer_def TAB_def)
  have c: "str_remove ''# '' (str_remove introducer (introducer @ d)) = d"
    using D by (simp add: clean_intro)
  have e: "\<not> reg_prot_end (introducer @ d)"
    using D by (intro reg_prot_end_open) simp_all
  have b: "reg_prot_start (introducer @ d)"
    using D reg_prot_start_intro [of d "[]"] by simp
  show ?thesis
    using n t e b assms(2) c by (rule parse_line_start)
qed

lemma parse_line_mid:
  assumes "seq_data d" "transcript_id s = Some t" "prot_tag s = 1"
  shows "parse_line s (''# '' @ d) = Inr (s\<lparr>d_seq := dict_add t d (d_seq s)\<rparr>)"
proof -
  note D = seq_dataD [OF assms(1)]
  have n: "\<not> is_noise (''# '' @ d)"
    using D by (intro not_noise_data_line) simp_all
  have t: "reg_transcript (''# '' @ d) = None"
    using D by (intro reg_transcript_no_tab) (simp add: TAB_def)
  have c: "str_remove ''# '' (str_remove introducer (''# '' @ d)) = d"
    using D by (intro clean_data_line) simp_all
  have e: "\<not> reg_prot_end (''# '' @ d)"
    using D by (intro reg_prot_end_open) simp_all
  have b: "\<not> reg_prot_start (''# '' @ d)"
    using D by (intro reg_prot_start_data_line) simp
  show ?thesis
    using n t e assms(3,2) c by (rule parse_line_cont)
qed

lemma parse_line_last:
  assumes "seq_data d" "transcript_id s = Some t"
  shows "parse_line s (''# '' @ d @ '']'') =
           Inr (s\<lparr>d_seq := dict_add t d (d_seq s), prot_tag := 0\<rparr>)"
proof -
  note D = seq_dataD [OF assms(1)]
  have n: "\<not> is_noise (''# '' @ d @ '']'')"
    using D by (intro not_noise_data_line) simp_all
  have t: "reg_transcript (''# '' @ d @ '']'') = None"
    using D by (intro reg_transcript_no_tab) (simp add: TAB_def)
  have "str_remove ''# '' (str_remove introducer (''# '' @ d @ '']'')) = d @ '']''"
    using D by (intro clean_data_line) simp_all
  then have c: "str_remove '']'' (str_remove ''# '' (str_remove introducer (''# '' @ d @ '']''))) = d"
    using D by (simp add: clean_bracket)
  have e: "reg_prot_end (''# '' @ d @ '']'')"
    using reg_prot_end_closed [of "''# '' @ d"] by simp
  have b: "\<not> reg_prot_start (''# '' @ d @ '']'')"
    using D by (intro reg_prot_start_data_line) simp
  show ?thesis
    using n t e assms(2) c by (rule parse_line_end)
qed

section \<open>Sequence blocks and whole inputs\<close>

lemma parse_lines_append:
  "parse_lines s (xs @ ys) =
     (case parse_lines s xs of Inl e \<Rightarrow> Inl e | Inr s' \<Rightarrow> parse_lines s' ys)"
  by (induction xs arbitrary: s) (auto split: sum.splits)

lemma parse_lines_drop_noise:
  "parse_lines s (filter (\<lambda>l. \<not> is_noise l) ls) = parse_lines s ls"
  by (induction ls arbitrary: s) (auto simp add: parse_line_noise split: sum.splits)

lemma parse_lines_idle:
  "list_all idle ls \<Longrightarrow> prot_tag s = 0 \<Longrightarrow> parse_lines s ls = Inr s"
proof (induction ls)
  case Nil
  then show ?case by simp
next
  case (Cons l ls)
  then have "parse_line s l = Inr s"
    by (cases "is_noise l") (simp_all add: parse_line_noise parse_line_idle idle_def)
  with Cons show ?case by simp
qed

lemma parse_lines_cont:
  assumes "ds \<noteq> []" "list_all seq_data ds" "transcript_id s = Some t" "prot_tag s = 1"
  shows "parse_lines s (cont_lines ds) =
           Inr (s\<lparr>d_seq := dict_add t (concat ds) (d_seq s), prot_tag := 0\<rparr>)"
  using assms
proof (induction ds arbitrary: s rule: cont_lines.induct)
  case 1
  then show ?case by simp
next
  case (2 d)
  then have "parse_line s (''# '' @ d @ '']'') =
      Inr (s\<lparr>d_seq := dict_add t d (d_seq s), prot_tag := 0\<rparr>)"
    by (intro parse_line_last) simp_all
  then show ?case by (simp del: append.simps)
next
  case (3 d e ds)
  let ?s = "s\<lparr>d_seq := dict_add t d (d_seq s)\<rparr>"
  have "parse_line s (''# '' @ d) = Inr ?s"
    using 3 by (intro parse_line_mid) simp_all
  moreover have "parse_lines ?s (cont_lines (e # ds)) =
      Inr (?s\<lparr>d_seq := dict_add t (concat (e # ds)) (d_seq ?s), prot_tag := 0\<rparr>)"
    using 3 by (intro "3.IH") simp_all
  ultimately show ?case
    by (simp add: dict_add_twice del: append.simps)
qed

lemma parse_lines_block:
  assumes "ds \<noteq> []" "list_all seq_data ds" "transcript_id s = Some t" "prot_tag s = 0"
  shows "parse_lines s (block_lines ds) = Inr (s\<lparr>d_seq := dict_add t (concat ds) (d_seq s)\<rparr>)"
proof (cases ds)
  case Nil
  with assms show ?thesis by simp
next
  case (Cons d es)
  show ?thesis
  proof (cases es)
    case Nil
    have "parse_line s (introducer @ d @ '']'') =
            Inr (s\<lparr>d_seq := dict_add t d (d_seq s), prot_tag := 0\<rparr>)"
      using assms Cons by (intro parse_line_single) simp_all
    with Nil Cons assms(4) show ?thesis by simp
  next
    case (Cons e fs)
    let ?s = "s\<lparr>prot_tag := 1, d_seq := dict_add t d (d_seq s)\<rparr>"
    have a: "parse_line s (introducer @ d) = Inr ?s"
      using assms \<open>ds = d # es\<close> by (intro parse_line_first) simp_all
    have "parse_lines ?s (cont_lines es) =
        Inr (?s\<lparr>d_seq := dict_add t (concat es) (d_seq ?s), prot_tag := 0\<rparr>)"
      using assms \<open>ds = d # es\<close> Cons by (intro parse_lines_cont) simp_all
    with a Cons \<open>ds = d # es\<close> assms(4) show ?thesis
      by (simp add: dict_add_twice del: append.simps)
  qed
qed

lemma parse_lines_render:
  assumes "wf_block b" "prot_tag s = 0"
  shows "parse_lines s (render b) =
           Inr (s\<lparr>transcript_id := Some (gb_id b),
                  d_seq := dict_add (gb_id b) (concat (gb_segments b)) (d_seq s)\<rparr>)"
proof -
  let ?s1 = "s\<lparr>transcript_id := Some (gb_id b)\<rparr>"
  let ?s2 = "?s1\<lparr>d_seq := dict_add (gb_id b) (concat (gb_segments b)) (d_seq ?s1)\<rparr>"
  have 1: "parse_line s (gb_line b) = Inr ?s1"
    using assms by (intro parse_line_transcript) (simp_all add: wf_block_def)
  have 2: "parse_lines ?s1 (gb_features b) = Inr ?s1"
    using assms by (intro parse_lines_idle) (simp_all add: wf_block_def)
  have 3: "parse_lines ?s1 (block_lines (gb_segments b)) = Inr ?s2"
    using assms by (intro parse_lines_block) (simp_all add: wf_block_def)
  have 4: "parse_lines ?s2 (gb_trailer b) = Inr ?s2"
    using assms by (intro parse_lines_idle) (simp_all add: wf_block_def)
  show ?thesis
    unfolding render_def using 1 2 3 4 by (simp add: parse_lines_append)
qed

lemma parse_lines_blocks:
  assumes "list_all wf_block bs" "prot_tag s = 0" "distinct (map gb_id bs)"
    and "\<forall>b\<in>set bs. gb_id b \<notin> fst ` set (d_seq s)"
  shows "\<exists>s'. parse_lines s (concat (map render bs)) = Inr s' \<and> prot_tag s' = 0 \<and>
           d_seq s' = d_seq s @ map (\<lambda>b. (gb_id b, concat (gb_segments b))) bs"
  using assms
proof (induction bs arbitrary: s)
  case Nil
  then show ?case by simp
next
  case (Cons b bs)
  let ?s = "s\<lparr>transcript_id := Some (gb_id b),
              d_seq := dict_add (gb_id b) (concat (gb_segments b)) (d_seq s)\<rparr>"
  have r: "parse_lines s (render b) = Inr ?s"
    using Cons.prems by (intro parse_lines_render) simp_all
  have d: "d_seq ?s = d_seq s @ [(gb_id b, concat (gb_segments b))]"
    using Cons.prems by (simp add: dict_add_fresh)
  have "\<forall>c\<in>set bs. gb_id c \<notin> fst ` set (d_seq ?s)"
  proof
    fix c
    assume c: "c \<in> set bs"
    then have "gb_id c \<noteq> gb_id b"
      using Cons.prems(3) by (auto simp add: image_iff)
    moreover have "gb_id c \<notin> fst ` set (d_seq s)"
      using Cons.prems(4) c by simp
    ultimately show "gb_id c \<notin> fst ` set (d_seq ?s)"
      unfolding d by auto
  qed
  then obtain s' where s': "parse_lines ?s (concat (map render bs)) = Inr s'"
      "prot_tag s' = 0" "d_seq s' = d_seq ?s @ map (\<lambda>b. (gb_id b, concat (gb_segments b))) bs"
    using Cons.IH [of ?s] Cons.prems by auto
  show ?case
    using r s' d by (simp add: parse_lines_append)
qed

text \<open>
  Claim C1. For a well-formed annotation (after the noise lines are dropped: idle lines,
  then gene blocks with distinct identifiers), the extractor returns exactly one entry
  per transcript identifier, in input order, and the entry's sequence is the
  concatenation of the data segments of the identifier's block, in line order. The
  three-line block \<open># protein sequence = [MSEK\<close>, \<open># QRST\<close>, \<open># UVWY]\<close> of
  \<open>example_lines\<close> yields \<open>MSEKQRSTUVWY\<close>.
\<close>

theorem extract_well_formed:
  assumes "filter (\<lambda>l. \<not> is_noise l) lines = header @ concat (map render blocks)"
    and "list_all idle header"
    and "list_all wf_block blocks"
    and "distinct (map gb_id blocks)"
  shows "extract_sequences lines = Inr (map (\<lambda>b. (gb_id b, concat (gb_segments b))) blocks)"
proof -
  have h: "parse_lines init_state header = Inr init_state"
    using assms(2) by (intro parse_lines_idle) (simp_all add: init_state_def)
  obtain s' where s': "parse_lines init_state (concat (map render blocks)) = Inr s'"
      "d_seq s' = d_seq init_state @ map (\<lambda>b. (gb_id b, concat (gb_segments b))) blocks"
    using parse_lines_blocks [OF assms(3) _ assms(4), of init_state]
    by (auto simp add: init_state_def)
  have "parse_lines init_state lines = Inr s'"
    using h s'(1) parse_lines_drop_noise [of init_state lines]
    by (simp add: assms(1) parse_lines_append)
  then show ?thesis
    using s'(2) by (simp add: extract_sequences_def init_state_def)
qed

theorem extract_well_formed_witness:
  "filter (\<lambda>l. \<not> is_noise l) example_lines =
     [''# start gene foo.g1''] @ concat (map render [example_block]) \<and>
   list_all idle [''# start gene foo.g1''] \<and>
   list_all wf_block [example_block] \<and>
   distinct (map gb_id [example_block]) \<and>
   extract_sequences example_lines = Inr [(''foo.g1.t1'', ''MSEKQRSTUVWY'')]"
proof -
  have 1: "filter (\<lambda>l. \<not> is_noise l) example_lines =
     [''# start gene foo.g1''] @ concat (map render [example_block])"
    by code_simp
  have 2: "list_all idle [''# start gene foo.g1'']"
    by code_simp
  have 3: "list_all wf_block [example_block]"
    by code_simp
  have 4: "distinct (map gb_id [example_block])"
    by simp
  have "extract_sequences example_lines = Inr [(''foo.g1.t1'', ''MSEKQRSTUVWY'')]"
    using extract_well_formed [OF 1 2 3 4] by (simp add: example_block_def)
  with 1 2 3 4 show ?thesis by blast
qed

section \<open>The writer\<close>

declare write_rows.simps [simp del]

lemma write_rows_concat: "concat (map butlast (write_rows prot_seq i)) = drop i prot_seq"
proof (induction prot_seq i rule: write_rows.induct)
  case (1 prot_seq i)
  show ?case
  proof (cases "i < length prot_seq")
    case True
    have "take 60 (drop i prot_seq) @ drop (i + 60) prot_seq = drop i prot_seq"
      by (metis add.commute append_take_drop_id drop_drop)
    with True 1 show ?thesis
      by (subst write_rows.simps) simp
  next
    case False
    then show ?thesis
      by (subst write_rows.simps) simp
  qed
qed

lemma write_rows_shape:
  "list_all (\<lambda>r. last r = LF \<and> 1 \<le> length (butlast r) \<and> length (butlast r) \<le> 60)
     (write_rows prot_seq i)"
proof (induction prot_seq i rule: write_rows.induct)
  case (1 prot_seq i)
  show ?case
  proof (cases "i < length prot_seq")
    case True
    with 1 show ?thesis
      by (subst write_rows.simps) (simp add: Suc_leI)
  next
    case False
    then show ?thesis
      by (subst write_rows.simps) simp
  qed
qed

lemma write_rows_full:
  "list_all (\<lambda>r. length (butlast r) = 60) (butlast (write_rows prot_seq i))"
proof (induction prot_seq i rule: write_rows.induct)
  case (1 prot_seq i)
  show ?case
  proof (cases "i < length prot_seq")
    case False
    then show ?thesis
      by (subst write_rows.simps) simp
  next
    case True
    show ?thesis
    proof (cases "i + 60 < length prot_seq")
      case True
      then have "length (take 60 (drop i prot_seq)) = 60"
        by simp
      moreover have "write_rows prot_seq (i + 60) \<noteq> []"
        using True by (subst write_rows.simps) simp
      ultimately show ?thesis
        using 1 \<open>i < length prot_seq\<close>
        by (subst write_rows.simps) simp
    next
      case False
      then have "write_rows prot_seq (i + 60) = []"
        by (subst write_rows.simps) simp
      then show ?thesis
        using \<open>i < length prot_seq\<close>
        by (subst write_rows.simps) simp
    qed
  qed
qed

text \<open>
  Claim C4. For every entry, what is written is the header, \<open>>\<close> and the identifier,
  and then rows whose texts, each without its newline, concatenate to the stored
  sequence; every row holds between 1 and 60 characters and every row but the last
  holds 60. The 80-residue sequence is written as a row of 60 and a row of 20; the
  empty sequence gives the header alone.
\<close>

theorem wrap_at_60_round_trip:
  "(\<exists>rows. write_entry (tid, prot_seq) = (''>'' @ tid @ [LF]) # rows \<and>
      concat (map butlast rows) = prot_seq \<and>
      list_all (\<lambda>r. last r = LF \<and> 1 \<le> length (butlast r) \<and> length (butlast r) \<le> 60) rows \<and>
      list_all (\<lambda>r. length (butlast r) = 60) (butlast rows)) \<and>
   concat (map butlast (write_rows prot_seq 0)) = prot_seq \<and>
   list_all (\<lambda>r. last r = LF \<and> 1 \<le> length (butlast r) \<and> length (butlast r) \<le> 60)
     (write_rows prot_seq 0) \<and>
   write_entry (tid, concat (replicate 4 ''ACDEFGHIKLMNPQRSTVWY'')) =
     [''>'' @ tid @ [LF],
      ''ACDEFGHIKLMNPQRSTVWYACDEFGHIKLMNPQRSTVWYACDEFGHIKLMNPQRSTVWY'' @ [LF],
      ''ACDEFGHIKLMNPQRSTVWY'' @ [LF]] \<and>
   write_entry (tid, []) = [''>'' @ tid @ [LF]]"
proof -
  have a: "write_rows (concat (replicate 4 ''ACDEFGHIKLMNPQRSTVWY'')) 0 =
     [''ACDEFGHIKLMNPQRSTVWYACDEFGHIKLMNPQRSTVWYACDEFGHIKLMNPQRSTVWY'' @ [LF],
      ''ACDEFGHIKLMNPQRSTVWY'' @ [LF]]"
    by code_simp
  have b: "write_rows [] 0 = []"
    by (subst write_rows.simps) simp
  have c: "write_entry (tid, concat (replicate 4 ''ACDEFGHIKLMNPQRSTVWY'')) =
     [''>'' @ tid @ [LF],
      ''ACDEFGHIKLMNPQRSTVWYACDEFGHIKLMNPQRSTVWYACDEFGHIKLMNPQRSTVWY'' @ [LF],
      ''ACDEFGHIKLMNPQRSTVWY'' @ [LF]]"
    unfolding write_entry_def using a by simp
  have d: "write_entry (tid, []) = [''>'' @ tid @ [LF]]"
    unfolding write_entry_def using b by simp
  have e: "write_entry (tid, prot_seq) = (''>'' @ tid @ [LF]) # write_rows prot_seq 0"
    by (simp add: write_entry_def)
  have g: "concat (map butlast (write_rows prot_seq 0)) = prot_seq"
    by (simp add: write_rows_concat)
  note h = write_rows_shape [of prot_seq 0]
  note k = write_rows_full [of prot_seq 0]
  have f: "\<exists>rows. write_entry (tid, prot_seq) = (''>'' @ tid @ [LF]) # rows \<and>
      concat (map butlast rows) = prot_seq \<and>
      list_all (\<lambda>r. last r = LF \<and> 1 \<le> length (butlast r) \<and> length (butlast r) \<le> 60) rows \<and>
      list_all (\<lambda>r. length (butlast r) = 60) (butlast rows)"
    using e g h k by (intro exI [of _ "write_rows prot_seq 0"] conjI)
  from f g h c d show ?thesis
    by (intro conjI)
qed

theorem wrap_at_60_round_trip_witness:
  "write_entry (''foo.g1.t1'', ''MSEKQRSTUVWY'') = [''>foo.g1.t1'' @ [LF], ''MSEKQRSTUVWY'' @ [LF]] \<and>
   concat (map butlast (write_rows ''MSEKQRSTUVWY'' 0)) = ''MSEKQRSTUVWY'' \<and>
   write_entry (''foo.g1.t1'', []) = [''>foo.g1.t1'' @ [LF]]"
proof -
  have "write_entry (''foo.g1.t1'', ''MSEKQRSTUVWY'') =
      [''>foo.g1.t1'' @ [LF], ''MSEKQRSTUVWY'' @ [LF]]"
    by code_simp
  then show ?thesis
    using wrap_at_60_round_trip [of "''foo.g1.t1''" "''MSEKQRSTUVWY''"] by simp
qed

lemma d_seq_sorted_raises:
  assumes "x \<in> set d" "reg_gene_search (fst x) = None"
  shows "d_seq_sorted d = Inl AttributeError"
proof -
  have "gene_key x = Inl AttributeError"
    using assms(2) by (simp add: gene_key_def)
  then have "\<not> list_all (\<lambda>x. gene_key x \<noteq> Inl AttributeError) d"
    using assms(1) by (auto simp add: list_all_iff)
  then show ?thesis
    by (simp add: d_seq_sorted_def)
qed

text \<open>
  The search for \<open>g(\d+)\.t\d+$\<close> succeeds exactly on the strings that end with a
  \<open>g\<close>, digits, \<open>.t\<close> and digits (a final newline apart).
\<close>

lemma not_isdigit_simps [simp]: "\<not> isdigit (CHR ''.'')" "\<not> isdigit LF"
  by (simp_all add: isdigit_def LF_def)

lemma startswith_decomp: "startswith s p \<Longrightarrow> s = p @ drop (length p) s"
  unfolding startswith_def by (metis append_take_drop_id)

lemma match_gene_at_intro:
  assumes "n \<noteq> []" "m \<noteq> []" "list_all isdigit n" "list_all isdigit m" "e = [] \<or> e = [LF]"
  shows "match_gene_at (''g'' @ n @ ''.t'' @ m @ e) = Some n"
proof -
  let ?cs = "n @ ''.t'' @ m @ e"
  have a: "takeWhile isdigit ?cs = n"
    using assms(3) by (simp add: list_all_iff takeWhile_append2)
  have b: "dropWhile isdigit ?cs = ''.t'' @ m @ e"
    using assms(3) by (simp add: list_all_iff dropWhile_append2)
  have c: "takeWhile isdigit (m @ e) = m"
    using assms(4,5) by (auto simp add: list_all_iff takeWhile_append2)
  have d: "dropWhile isdigit (m @ e) = e"
    using assms(4,5) by (auto simp add: list_all_iff dropWhile_append2)
  have "match_gene_at (CHR ''g'' # ?cs) = Some n"
    unfolding match_gene_at_def list.case a b
    using assms(1,2,5) c d by (simp add: startswith_def)
  then show ?thesis by simp
qed

lemma match_gene_at_elim:
  assumes "match_gene_at s = Some n"
  shows "\<exists>m e. s = ''g'' @ n @ ''.t'' @ m @ e \<and> n \<noteq> [] \<and> m \<noteq> [] \<and>
           list_all isdigit n \<and> list_all isdigit m \<and> (e = [] \<or> e = [LF])"
proof (cases s)
  case Nil
  with assms show ?thesis by (simp add: match_gene_at_def)
next
  case (Cons c cs)
  define r where "r = dropWhile isdigit cs"
  define m where "m = takeWhile isdigit (drop 2 r)"
  define e where "e = dropWhile isdigit (drop 2 r)"
  from assms Cons have g: "c = CHR ''g''" and n: "n = takeWhile isdigit cs" "n \<noteq> []"
    and st: "startswith r ''.t''" and m: "m \<noteq> []" and e: "e = [] \<or> e = [LF]"
    unfolding match_gene_at_def r_def m_def e_def
    by (auto split: if_splits)
  have "cs = n @ r"
    by (simp add: n r_def)
  moreover have "r = ''.t'' @ drop 2 r"
    using startswith_decomp [OF st] by (simp add: numeral_2_eq_2)
  moreover have "drop 2 r = m @ e"
    by (simp add: m_def e_def)
  ultimately have "s = ''g'' @ n @ ''.t'' @ m @ e"
    using Cons g by simp
  moreover have "list_all isdigit n" "list_all isdigit m"
    unfolding n m_def list_all_iff by (auto dest: set_takeWhileD)
  ultimately show ?thesis
    using n(2) m e by blast
qed

lemma reg_gene_search_iff:
  "(\<exists>n. reg_gene_search s = Some n) \<longleftrightarrow>
   (\<exists>pre n m e. s = pre @ ''g'' @ n @ ''.t'' @ m @ e \<and> n \<noteq> [] \<and> m \<noteq> [] \<and>
      list_all isdigit n \<and> list_all isdigit m \<and> (e = [] \<or> e = [LF]))"
proof
  assume "\<exists>n. reg_gene_search s = Some n"
  then show "\<exists>pre n m e. s = pre @ ''g'' @ n @ ''.t'' @ m @ e \<and> n \<noteq> [] \<and> m \<noteq> [] \<and>
      list_all isdigit n \<and> list_all isdigit m \<and> (e = [] \<or> e = [LF])"
  proof (induction s)
    case Nil
    then show ?case by simp
  next
    case (Cons c cs)
    show ?case
    proof (cases "match_gene_at (c # cs)")
      case None
      with Cons.prems have "\<exists>n. reg_gene_search cs = Some n" by simp
      from Cons.IH [OF this] obtain pre n m e where
        "cs = pre @ ''g'' @ n @ ''.t'' @ m @ e \<and> n \<noteq> [] \<and> m \<noteq> [] \<and>
         list_all isdigit n \<and> list_all isdigit m \<and> (e = [] \<or> e = [LF])"
        by blast
      then have "c # cs = (c # pre) @ ''g'' @ n @ ''.t'' @ m @ e \<and> n \<noteq> [] \<and> m \<noteq> [] \<and>
         list_all isdigit n \<and> list_all isdigit m \<and> (e = [] \<or> e = [LF])"
        by simp
      then show ?thesis by blast
    next
      case (Some n)
      from match_gene_at_elim [OF this] obtain m e where
        "c # cs = [] @ ''g'' @ n @ ''.t'' @ m @ e \<and> n \<noteq> [] \<and> m \<noteq> [] \<and>
         list_all isdigit n \<and> list_all isdigit m \<and> (e = [] \<or> e = [LF])"
        by auto
      then show ?thesis by blast
    qed
  qed
next
  assume "\<exists>pre n m e. s = pre @ ''g'' @ n @ ''.t'' @ m @ e \<and> n \<noteq> [] \<and> m \<noteq> [] \<and>
      list_all isdigit n \<and> list_all isdigit m \<and> (e = [] \<or> e = [LF])"
  then obtain pre n m e where s: "s = pre @ ''g'' @ n @ ''.t'' @ m @ e"
    and c: "n \<noteq> []" "m \<noteq> []" "list_all isdigit n" "list_all isdigit m" "e = [] \<or> e = [LF]"
    by blast
  have "\<exists>k. reg_gene_search (pre @ ''g'' @ n @ ''.t'' @ m @ e) = Some k"
  proof (induction pre)
    case Nil
    have "match_gene_at (''g'' @ n @ ''.t'' @ m @ e) = Some n"
      using c by (rule match_gene_at_intro)
    then show ?case by simp
  next
    case (Cons c pre)
    then show ?case
      by (cases "match_gene_at (c # pre @ ''g'' @ n @ ''.t'' @ m @ e)") simp_all
  qed
  then show "\<exists>n. reg_gene_search s = Some n"
    by (simp add: s)
qed

text \<open>
  Claim C6. When the search for \<open>g(\d+)\.t\d+$\<close> fails on the identifier of some entry,
  the sort raises \<open>AttributeError\<close>: no entry is written, none is skipped, and the
  output file, opened before the sort, is left empty.
\<close>

theorem writer_raises_on_bad_identifier:
  assumes "x \<in> set d" "reg_gene_search (fst x) = None"
  shows "d_seq_sorted d = Inl AttributeError \<and>
         write_fasta fs outfile d = (fs(outfile \<mapsto> []), Some AttributeError)"
  using d_seq_sorted_raises [OF assms] by (simp add: write_fasta_def)

theorem writer_raises_on_bad_identifier_witness:
  "(''foo.gX.t1'', ''MK'') \<in> set [(''foo.g1.t1'', ''MSE''), (''foo.gX.t1'', ''MK'')] \<and>
   reg_gene_search (fst (''foo.gX.t1'', ''MK'')) = None \<and>
   d_seq_sorted [(''foo.g1.t1'', ''MSE''), (''foo.gX.t1'', ''MK'')] = Inl AttributeError \<and>
   write_fasta Map.empty ''out/augustus.faa'' [(''foo.g1.t1'', ''MSE''), (''foo.gX.t1'', ''MK'')] =
     (Map.empty(''out/augustus.faa'' \<mapsto> []), Some AttributeError)"
proof -
  have 1: "(''foo.gX.t1'', ''MK'') \<in> set [(''foo.g1.t1'', ''MSE''), (''foo.gX.t1'', ''MK'')]"
    by simp
  have 2: "reg_gene_search (fst (''foo.gX.t1'', ''MK'')) = None"
    by code_simp
  from writer_raises_on_bad_identifier [OF 1 2, of Map.empty "''out/augustus.faa''"] 1 2
  show ?thesis by blast
qed

text \<open>
  The mapping that the extractor hands to the writer has every key once, in the order
  of first insertion.
\<close>

lemma dict_add_keys:
  "map fst (dict_add k v d) = (if k \<in> fst ` set d then map fst d else map fst d @ [k])"
proof (induction d)
  case Nil
  then show ?case by simp
next
  case (Cons x d)
  obtain k' w where x: "x = (k', w)" by (cases x)
  show ?case
  proof (cases "k' = k")
    case True
    then show ?thesis by (simp add: x)
  next
    case False
    then show ?thesis using Cons by (simp add: x)
  qed
qed

lemma dict_add_distinct: "distinct (map fst d) \<Longrightarrow> distinct (map fst (dict_add k v d))"
  by (simp add: dict_add_keys)

lemma accumulate_distinct:
  "accumulate v s = Inr s' \<Longrightarrow> distinct (map fst (d_seq s)) \<Longrightarrow> distinct (map fst (d_seq s'))"
  by (auto simp add: accumulate_def dict_add_distinct split: option.splits)

lemma parse_line_distinct:
  assumes "parse_line s line = Inr s'" "distinct (map fst (d_seq s))"
  shows "distinct (map fst (d_seq s'))"
proof (cases "is_noise line")
  case True
  with assms show ?thesis by (simp add: parse_line_def)
next
  case False
  have a: "distinct (map fst (d_seq (step_detect line s)))"
    using assms(2) by (simp add: step_detect_def split: option.splits)
  from assms(1) False obtain s1 where s1: "step_end line (step_detect line s) = Inr s1"
    and s': "step_cont line s1 = Inr s'"
    by (auto simp add: parse_line_def split: sum.splits)
  from s1 a have "distinct (map fst (d_seq s1))"
    by (auto simp add: step_end_def split: if_splits sum.splits dest: accumulate_distinct)
  with s' show ?thesis
    by (auto simp add: step_cont_def split: if_splits dest: accumulate_distinct)
qed

lemma parse_lines_distinct:
  "parse_lines s ls = Inr s' \<Longrightarrow> distinct (map fst (d_seq s)) \<Longrightarrow> distinct (map fst (d_seq s'))"
proof (induction ls arbitrary: s)
  case Nil
  then show ?case by simp
next
  case (Cons l ls)
  then show ?case
    by (auto split: sum.splits dest: parse_line_distinct)
qed

lemma extract_sequences_distinct:
  "extract_sequences augustus_gff3 = Inr d \<Longrightarrow> distinct (map fst d)"
  using parse_lines_distinct [of init_state augustus_gff3]
  by (auto simp add: extract_sequences_def init_state_def split: sum.splits)

lemma key_or_zero_fst: "key_or_zero x = key_or_zero (fst x, [])"
  by (simp add: key_or_zero_def gene_key_def)

lemma d_seq_sorted_Inr:
  assumes "d_seq_sorted d = Inr items"
  shows "items = sort_key key_or_zero d" "\<forall>x\<in>set d. gene_key x = Inr (key_or_zero x)"
proof -
  from assms have a: "list_all (\<lambda>x. gene_key x \<noteq> Inl AttributeError) d"
    and b: "items = sort_key key_or_zero d"
    by (auto simp add: d_seq_sorted_def split: if_splits)
  show "items = sort_key key_or_zero d" by (rule b)
  show "\<forall>x\<in>set d. gene_key x = Inr (key_or_zero x)"
    using a by (auto simp add: list_all_iff key_or_zero_def gene_key_def split: option.splits)
qed

lemma three_in_order:
  fixes kk :: "string \<Rightarrow> int"
  assumes "distinct L" "set L = {a, b, c}" "sorted (map kk L)"
    and "kk a < kk b" "kk b < kk c"
  shows "L = [a, b, c]"
proof -
  have abc: "a \<noteq> b" "b \<noteq> c" "a \<noteq> c"
    using assms(4,5) by auto
  have inj: "inj_on kk (set L)"
    using assms(2,4,5) by (auto simp add: inj_on_def)
  have "map kk L = [kk a, kk b, kk c]"
  proof (rule sorted_distinct_set_unique)
    show "sorted (map kk L)" by (rule assms(3))
    show "distinct (map kk L)" using assms(1) inj by (simp add: distinct_map)
    show "sorted [kk a, kk b, kk c]" using assms(4,5) by simp
    show "distinct [kk a, kk b, kk c]" using assms(4,5) by simp
    show "set (map kk L) = set [kk a, kk b, kk c]" using assms(2) by simp
  qed
  then obtain x y z where L: "L = [x, y, z]" and k: "kk x = kk a" "kk y = kk b" "kk z = kk c"
    by (auto simp add: map_eq_Cons_conv)
  have m: "x \<in> set L" "y \<in> set L" "z \<in> set L"
    by (simp_all add: L)
  have n: "a \<in> set L" "b \<in> set L" "c \<in> set L"
    by (simp_all add: assms(2))
  have "x = a"
    using inj k(1) m(1) n(1) by (rule inj_onD)
  moreover have "y = b"
    using inj k(2) m(2) n(2) by (rule inj_onD)
  moreover have "z = c"
    using inj k(3) m(3) n(3) by (rule inj_onD)
  ultimately show ?thesis
    using L by simp
qed

lemma d_seq_sorted_ok:
  assumes "\<forall>x\<in>set d. reg_gene_search (fst x) \<noteq> None"
  shows "d_seq_sorted d = Inr (sort_key key_or_zero d)"
proof -
  have "list_all (\<lambda>x. gene_key x \<noteq> Inl AttributeError) d"
    using assms by (auto simp add: list_all_iff gene_key_def split: option.splits)
  then show ?thesis
    by (simp add: d_seq_sorted_def)
qed

lemma three_sorted_out:
  assumes items: "items = sort_key key_or_zero d"
    and "distinct (map fst d)"
    and "{''foo.g2.t1'', ''foo.g10.t1'', ''foo.g1.t1''} \<subseteq> fst ` set d"
  shows "filter (\<lambda>k. k \<in> {''foo.g2.t1'', ''foo.g10.t1'', ''foo.g1.t1''}) (map fst items) =
           [''foo.g1.t1'', ''foo.g2.t1'', ''foo.g10.t1'']"
proof -
  define S :: "string set" where "S = {''foo.g2.t1'', ''foo.g10.t1'', ''foo.g1.t1''}"
  define kk :: "string \<Rightarrow> int" where "kk k = key_or_zero (k, [])" for k
  define ys where "ys = filter (\<lambda>x. fst x \<in> S) d"
  define L where "L = map fst (sort_key key_or_zero ys)"
  have L: "filter (\<lambda>k. k \<in> S) (map fst items) = L"
    by (simp add: L_def ys_def items filter_map filter_sort o_def)
  have "mset L = mset (map fst ys)"
    by (simp add: L_def)
  moreover have "distinct (map fst ys)"
    using assms(2) by (simp add: ys_def distinct_map_filter)
  ultimately have dL: "distinct L"
    using mset_eq_imp_distinct_iff by blast
  have sL: "set L = {''foo.g1.t1'', ''foo.g2.t1'', ''foo.g10.t1''}"
    using assms(3) by (auto simp add: L_def ys_def S_def)
  have "map kk L = map key_or_zero (sort_key key_or_zero ys)"
    unfolding L_def kk_def map_map o_def using key_or_zero_fst by metis
  then have oL: "sorted (map kk L)"
    by simp
  have v: "kk ''foo.g1.t1'' = 1" "kk ''foo.g2.t1'' = 2" "kk ''foo.g10.t1'' = 10"
    unfolding kk_def by code_simp+
  have "L = [''foo.g1.t1'', ''foo.g2.t1'', ''foo.g10.t1'']"
    using dL sL oL by (rule three_in_order) (simp_all add: v)
  with L show ?thesis
    by (simp add: S_def)
qed

text \<open>
  Claim C3. For every mapping whose identifiers all match the pattern, the sort
  succeeds and the writer emits the entries in its order: ascending in the integer
  captured from the identifier, a permutation of the mapping, entries with equal
  integers in the order of the mapping. So in every mapping that holds \<open>foo.g2.t1\<close>,
  \<open>foo.g10.t1\<close> and \<open>foo.g1.t1\<close> these three come out as g1, g2, g10.
\<close>

theorem sort_is_numeric:
  assumes "\<forall>x\<in>set d. reg_gene_search (fst x) \<noteq> None"
  shows "\<exists>items.
           d_seq_sorted d = Inr items \<and>
           write_fasta fs outfile d =
             (fs(outfile \<mapsto> concat (concat (map write_entry items))), None) \<and>
           sorted (map key_or_zero items) \<and>
           (\<forall>x\<in>set items. gene_key x = Inr (key_or_zero x)) \<and>
           mset items = mset d \<and>
           (\<forall>k. filter (\<lambda>x. key_or_zero x = k) items = filter (\<lambda>x. key_or_zero x = k) d) \<and>
           (distinct (map fst d) \<and>
            {''foo.g2.t1'', ''foo.g10.t1'', ''foo.g1.t1''} \<subseteq> fst ` set d \<longrightarrow>
              filter (\<lambda>k. k \<in> {''foo.g2.t1'', ''foo.g10.t1'', ''foo.g1.t1''}) (map fst items) =
                [''foo.g1.t1'', ''foo.g2.t1'', ''foo.g10.t1''])"
proof -
  define items where "items = sort_key key_or_zero d"
  have 0: "d_seq_sorted d = Inr items"
    unfolding items_def using assms by (rule d_seq_sorted_ok)
  note I = d_seq_sorted_Inr [OF 0]
  have w: "write_fasta fs outfile d =
      (fs(outfile \<mapsto> concat (concat (map write_entry items))), None)"
    by (simp add: write_fasta_def 0)
  have 1: "sorted (map key_or_zero items)"
    by (simp add: items_def)
  have 2: "\<forall>x\<in>set items. gene_key x = Inr (key_or_zero x)"
    using I(2) by (simp add: items_def)
  have 3: "mset items = mset d"
    by (simp add: items_def)
  have 4: "\<forall>k. filter (\<lambda>x. key_or_zero x = k) items = filter (\<lambda>x. key_or_zero x = k) d"
    by (simp add: items_def sort_key_stable)
  have 5: "distinct (map fst d) \<and>
            {''foo.g2.t1'', ''foo.g10.t1'', ''foo.g1.t1''} \<subseteq> fst ` set d \<longrightarrow>
              filter (\<lambda>k. k \<in> {''foo.g2.t1'', ''foo.g10.t1'', ''foo.g1.t1''}) (map fst items) =
                [''foo.g1.t1'', ''foo.g2.t1'', ''foo.g10.t1'']"
    using three_sorted_out [OF items_def] by blast
  from 0 w 1 2 3 4 5 show ?thesis
    by (intro exI [of _ items] conjI)
qed

theorem sort_is_numeric_witness:
  "list_all (\<lambda>x. reg_gene_search (fst x) \<noteq> None)
     [(''foo.g2.t1'', ''MSE''), (''foo.g10.t1'', ''MK''), (''foo.g1.t1'', ''MV'')] \<and>
   d_seq_sorted [(''foo.g2.t1'', ''MSE''), (''foo.g10.t1'', ''MK''), (''foo.g1.t1'', ''MV'')] =
     Inr [(''foo.g1.t1'', ''MV''), (''foo.g2.t1'', ''MSE''), (''foo.g10.t1'', ''MK'')] \<and>
   write_fasta Map.empty ''out/augustus.faa''
     [(''foo.g2.t1'', ''MSE''), (''foo.g10.t1'', ''MK''), (''foo.g1.t1'', ''MV'')] =
     ([''out/augustus.faa'' \<mapsto>
         ''>foo.g1.t1'' @ [LF] @ ''MV'' @ [LF] @ ''>foo.g2.t1'' @ [LF] @ ''MSE'' @ [LF] @
         ''>foo.g10.t1'' @ [LF] @ ''MK'' @ [LF]], None)"
proof -
  let ?d = "[(''foo.g2.t1'', ''MSE''), (''foo.g10.t1'', ''MK''), (''foo.g1.t1'', ''MV'')]"
  let ?items = "[(''foo.g1.t1'', ''MV''), (''foo.g2.t1'', ''MSE''), (''foo.g10.t1'', ''MK'')]"
  have 1: "\<forall>x\<in>set ?d. reg_gene_search (fst x) \<noteq> None"
    by code_simp
  have 2: "d_seq_sorted ?d = Inr ?items"
    by code_simp
  have 3: "concat (concat (map write_entry ?items)) =
      ''>foo.g1.t1'' @ [LF] @ ''MV'' @ [LF] @ ''>foo.g2.t1'' @ [LF] @ ''MSE'' @ [LF] @
      ''>foo.g10.t1'' @ [LF] @ ''MK'' @ [LF]"
    by code_simp
  from sort_is_numeric [OF 1, of Map.empty "''out/augustus.faa''"]
  obtain items where a: "d_seq_sorted ?d = Inr items"
    and b: "write_fasta Map.empty ''out/augustus.faa'' ?d =
      ([''out/augustus.faa'' \<mapsto> concat (concat (map write_entry items))], None)"
    by blast
  from a 2 have "items = ?items"
    by simp
  with b have "write_fasta Map.empty ''out/augustus.faa'' ?d =
      ([''out/augustus.faa'' \<mapsto> concat (concat (map write_entry ?items))], None)"
    by simp
  moreover have "list_all (\<lambda>x. reg_gene_search (fst x) \<noteq> None) ?d"
    using 1 by (simp only: list_all_iff)
  ultimately show ?thesis
    using 2 unfolding 3 by blast
qed

section \<open>Lines that end with a closing bracket\<close>

lemma is_noise_iff: "is_noise line = (\<exists>p\<in>set noise_patterns. re_search_literal p line)"
  unfolding is_noise_def noise_patterns_def by simp

lemma endswith_bracket: "line \<noteq> [] \<Longrightarrow> last line = CHR '']'' \<Longrightarrow> reg_prot_end line"
proof -
  assume "line \<noteq> []" "last line = CHR '']''"
  then have "line = butlast line @ '']''"
    by (metis append_butlast_last_id)
  then show ?thesis
    using reg_prot_end_closed [of "butlast line"] by simp
qed

lemma reg_prot_end_iff:
  assumes "LF \<notin> set line"
  shows "reg_prot_end line = (line \<noteq> [] \<and> last line = CHR '']'')"
proof
  assume e: "reg_prot_end line"
  have "\<not> endswith line ('']'' @ [LF])"
  proof
    assume a: "endswith line ('']'' @ [LF])"
    then have "line \<noteq> []" by (auto simp add: endswith_def)
    moreover from a have "last line = LF" by (auto dest!: endswith_last)
    ultimately show False using assms last_in_set by metis
  qed
  with e have a: "endswith line '']''" by (simp add: reg_prot_end_def)
  then have "line \<noteq> []" by (auto simp add: endswith_def)
  moreover from a have "last line = CHR '']''" by (auto dest!: endswith_last)
  ultimately show "line \<noteq> [] \<and> last line = CHR '']''" by simp
next
  assume "line \<noteq> [] \<and> last line = CHR '']''"
  then show "reg_prot_end line" by (simp add: endswith_bracket)
qed

lemma parse_line_closing:
  fixes s :: pstate
  assumes "\<not> is_noise line" "reg_prot_end line"
    and "(case reg_transcript line of Some g \<Rightarrow> Some g | None \<Rightarrow> transcript_id s) = Some t"
  shows "parse_line s line =
           Inr \<lparr>transcript_id = Some t, prot_tag = 0,
                d_seq = dict_add t (str_remove '']'' (str_remove ''# '' (str_remove introducer line)))
                          (d_seq s)\<rparr>"
  using assms
  by (cases s)
     (auto simp add: parse_line_def step_detect_def step_end_def step_cont_def accumulate_def
           split: option.splits)



section \<open>A sequence block on one line\<close>



section \<open>Noise lines\<close>

text \<open>
  Claim C5, as the spec states it, speaks of nine noise patterns. The filter of the code
  tests ten, all different.
\<close>

theorem noise_pattern_count_counterexample: "card (set noise_patterns) \<noteq> 9"
  by (simp add: noise_patterns_def)

text \<open>
  Claim C5, amended. Each of the ten noise patterns, alone in the input, yields the
  empty mapping, and a line in which one of them occurs leaves the parser state as it
  is: the identifier, the flag and the sequences.
\<close>

theorem noise_lines_are_skipped:
  "length noise_patterns = 10 \<and> distinct noise_patterns \<and>
   (\<forall>p\<in>set noise_patterns. extract_sequences [p] = Inr []) \<and>
   (\<forall>p\<in>set noise_patterns. \<forall>s line. re_search_literal p line \<longrightarrow> parse_line s line = Inr s) \<and>
   (\<forall>line. is_noise line = (\<exists>p\<in>set noise_patterns. re_search_literal p line))"
proof -
  have a: "length noise_patterns = 10" "distinct noise_patterns"
    by (simp_all add: noise_patterns_def)
  have b: "parse_line s line = Inr s" if "p \<in> set noise_patterns" "re_search_literal p line"
    for p s line
    using that by (intro parse_line_noise) (auto simp add: is_noise_iff)
  have c: "re_search_literal p p" for p
    by (cases p) (simp_all add: startswith_def)
  have "extract_sequences [p] = Inr []" if "p \<in> set noise_patterns" for p
    using b [OF that c] by (simp add: extract_sequences_def init_state_def)
  with a b is_noise_iff show ?thesis
    by blast
qed

theorem noise_lines_are_skipped_witness:
  "''# CDS exons'' \<in> set noise_patterns \<and> re_search_literal ''# CDS exons'' ''# CDS exons: 3/3'' \<and>
   extract_sequences [''# CDS exons''] = Inr [] \<and>
   parse_line \<lparr>transcript_id = Some ''foo.g1.t1'', prot_tag = 1, d_seq = [(''foo.g1.t1'', ''MSE'')]\<rparr>
       ''# CDS exons: 3/3'' =
     Inr \<lparr>transcript_id = Some ''foo.g1.t1'', prot_tag = 1, d_seq = [(''foo.g1.t1'', ''MSE'')]\<rparr>"
proof -
  have 1: "''# CDS exons'' \<in> set noise_patterns"
    by (simp add: noise_patterns_def)
  have 2: "re_search_literal ''# CDS exons'' ''# CDS exons: 3/3''"
    by code_simp
  from noise_lines_are_skipped 1 2 show ?thesis
    by blast
qed

section \<open>Sequence lines before any transcript line\<close>

lemma parse_line_unbound:
  assumes "\<not> is_noise line" "reg_transcript line = None" "reg_prot_start line \<or> reg_prot_end line"
    and "transcript_id s = None"
  shows "parse_line s line = Inl UnboundLocalError"
  using assms
  by (auto simp add: parse_line_def step_detect_def step_end_def step_cont_def accumulate_def)

lemma parse_line_open:
  fixes s :: pstate
  assumes "\<not> is_noise line" "reg_transcript line = None" "\<not> reg_prot_end line"
    and "reg_prot_start line \<or> prot_tag s = 1" "transcript_id s = Some t"
  shows "parse_line s line =
           Inr \<lparr>transcript_id = Some t, prot_tag = 1,
                d_seq = dict_add t (str_remove ''# '' (str_remove introducer line)) (d_seq s)\<rparr>"
  using assms
  by (cases s)
     (auto simp add: parse_line_def step_detect_def step_end_def step_cont_def accumulate_def)

text \<open>
  Claim C7, as the spec states it, has the extractor accumulate a sequence line that
  comes before any transcript line. The variable \<open>transcript_id\<close> has no value then:
  a sequence-start or sequence-end line raises \<open>UnboundLocalError\<close>, and a
  continuation line is ignored, the flag being clear.
\<close>

theorem sequence_before_transcript_counterexample:
  "extract_sequences [''# protein sequence = [MSE]''] = Inl UnboundLocalError \<and>
   extract_sequences [''# UVWY]''] = Inl UnboundLocalError \<and>
   extract_sequences [''# QRST''] = Inr []"
  by code_simp

lemma parse_lines_noise_or_idle:
  "list_all (\<lambda>l. is_noise l \<or> idle l) ls \<Longrightarrow> prot_tag s = 0 \<Longrightarrow> parse_lines s ls = Inr s"
proof (induction ls)
  case Nil
  then show ?case by simp
next
  case (Cons l ls)
  then have "parse_line s l = Inr s"
    by (cases "is_noise l") (simp_all add: parse_line_noise parse_line_idle idle_def)
  with Cons show ?case by simp
qed

text \<open>
  Claim C7, amended. Before any transcript line, lines that are noise or carry neither
  marker are ignored: an input of such lines gives the empty mapping. The first
  sequence-start or sequence-end line (not noise) that follows only such lines raises
  \<open>UnboundLocalError\<close>, and no mapping is returned. Once an identifier has been
  assigned, a sequence line without a new transcript line is accumulated under that
  previous identifier.
\<close>

theorem sequence_line_without_transcript:
  fixes s :: pstate
  shows "(list_all (\<lambda>l. is_noise l \<or> idle l) pre \<longrightarrow> extract_sequences pre = Inr []) \<and>
         (list_all (\<lambda>l. is_noise l \<or> idle l) pre \<and> \<not> is_noise line \<and>
          reg_transcript line = None \<and> (reg_prot_start line \<or> reg_prot_end line) \<longrightarrow>
            extract_sequences (pre @ line # post) = Inl UnboundLocalError) \<and>
         (\<not> is_noise line \<and> reg_transcript line = None \<and>
          transcript_id s = Some t \<and> reg_prot_end line \<longrightarrow>
            parse_line s line =
              Inr \<lparr>transcript_id = Some t, prot_tag = 0,
                   d_seq = dict_add t
                     (str_remove '']'' (str_remove ''# '' (str_remove introducer line))) (d_seq s)\<rparr>) \<and>
         (\<not> is_noise line \<and> reg_transcript line = None \<and>
          transcript_id s = Some t \<and> \<not> reg_prot_end line \<and>
          (reg_prot_start line \<or> prot_tag s = 1) \<longrightarrow>
            parse_line s line =
              Inr \<lparr>transcript_id = Some t, prot_tag = 1,
                   d_seq = dict_add t (str_remove ''# '' (str_remove introducer line)) (d_seq s)\<rparr>)"
proof (intro conjI impI)
  assume "list_all (\<lambda>l. is_noise l \<or> idle l) pre"
  then have "parse_lines init_state pre = Inr init_state"
    by (intro parse_lines_noise_or_idle) (simp_all add: init_state_def)
  then show "extract_sequences pre = Inr []"
    by (simp add: extract_sequences_def init_state_def)
next
  assume a: "list_all (\<lambda>l. is_noise l \<or> idle l) pre \<and> \<not> is_noise line \<and>
          reg_transcript line = None \<and> (reg_prot_start line \<or> reg_prot_end line)"
  then have "parse_lines init_state pre = Inr init_state"
    by (intro parse_lines_noise_or_idle) (simp_all add: init_state_def)
  moreover have "parse_line init_state line = Inl UnboundLocalError"
    using a by (intro parse_line_unbound) (simp_all add: init_state_def)
  ultimately show "extract_sequences (pre @ line # post) = Inl UnboundLocalError"
    by (simp add: extract_sequences_def parse_lines_append)
next
  assume "\<not> is_noise line \<and> reg_transcript line = None \<and>
          transcript_id s = Some t \<and> reg_prot_end line"
  then show "parse_line s line =
      Inr \<lparr>transcript_id = Some t, prot_tag = 0,
           d_seq = dict_add t
             (str_remove '']'' (str_remove ''# '' (str_remove introducer line))) (d_seq s)\<rparr>"
    by (intro parse_line_closing) simp_all
next
  assume "\<not> is_noise line \<and> reg_transcript line = None \<and>
          transcript_id s = Some t \<and> \<not> reg_prot_end line \<and>
          (reg_prot_start line \<or> prot_tag s = 1)"
  then show "parse_line s line =
      Inr \<lparr>transcript_id = Some t, prot_tag = 1,
           d_seq = dict_add t (str_remove ''# '' (str_remove introducer line)) (d_seq s)\<rparr>"
    by (intro parse_line_open) simp_all
qed

theorem sequence_line_without_transcript_witness:
  "list_all (\<lambda>l. is_noise l \<or> idle l) [''# start gene foo.g1'', ''# CDS exons: [3/3]'', ''# QRST''] \<and>
   \<not> is_noise ''# UVWY]'' \<and> reg_transcript ''# UVWY]'' = None \<and> reg_prot_end ''# UVWY]'' \<and>
   extract_sequences [''# start gene foo.g1'', ''# CDS exons: [3/3]'', ''# QRST''] = Inr [] \<and>
   extract_sequences
     ([''# start gene foo.g1'', ''# CDS exons: [3/3]'', ''# QRST''] @ ''# UVWY]'' #
      [''# end gene foo.g1'']) = Inl UnboundLocalError \<and>
   parse_line \<lparr>transcript_id = Some ''foo.g1.t1'', prot_tag = 0, d_seq = [(''foo.g1.t1'', ''MSEK'')]\<rparr>
       ''# UVWY]'' =
     Inr \<lparr>transcript_id = Some ''foo.g1.t1'', prot_tag = 0, d_seq = [(''foo.g1.t1'', ''MSEKUVWY'')]\<rparr>"
proof -
  let ?s = "\<lparr>transcript_id = Some ''foo.g1.t1'', prot_tag = 0, d_seq = [(''foo.g1.t1'', ''MSEK'')]\<rparr>"
  let ?pre = "[''# start gene foo.g1'', ''# CDS exons: [3/3]'', ''# QRST'']"
  have 0: "list_all (\<lambda>l. is_noise l \<or> idle l) ?pre" by code_simp
  have 1: "\<not> is_noise ''# UVWY]''" by code_simp
  have 2: "reg_transcript ''# UVWY]'' = None" by code_simp
  have 4: "reg_prot_end ''# UVWY]''" by code_simp
  have 5: "transcript_id ?s = Some ''foo.g1.t1''" by simp
  have 6: "dict_add ''foo.g1.t1''
      (str_remove '']'' (str_remove ''# '' (str_remove introducer ''# UVWY]''))) (d_seq ?s) =
      [(''foo.g1.t1'', ''MSEKUVWY'')]"
    by code_simp
  from sequence_line_without_transcript [of ?pre "''# UVWY]''" "[''# end gene foo.g1'']" ?s
      "''foo.g1.t1''"] 0 1 2 4 5
  show ?thesis
    unfolding 6 by blast
qed

section \<open>The line source\<close>

lemma rstrip_split: "l = rstrip l @ rev (takeWhile isspace (rev l))"
proof -
  have "rev (takeWhile isspace (rev l) @ dropWhile isspace (rev l)) = l"
    by (simp only: takeWhile_dropWhile_id rev_rev_ident)
  then show ?thesis
    by (simp only: rstrip_def rev_append)
qed

lemma rstrip_suffix_space: "list_all isspace (rev (takeWhile isspace (rev l)))"
  by (auto simp add: list_all_iff dest: set_takeWhileD)

lemma rstrip_no_trailing_space: "rstrip l = [] \<or> \<not> isspace (last (rstrip l))"
proof (cases "dropWhile isspace (rev l)")
  case Nil
  then show ?thesis by (simp add: rstrip_def)
next
  case (Cons c cs)
  then have "\<not> isspace c"
    by (metis hd_dropWhile list.distinct(1) list.sel(1))
  with Cons show ?thesis by (simp add: rstrip_def)
qed

lemma iter_lines_concat: "concat (iter_lines cur s) = cur @ s"
  by (induction s arbitrary: cur) auto

text \<open>
  Claim C8, as the spec states it, has the line source strip the line terminators only.
  \<open>rstrip()\<close> without an argument strips every trailing whitespace character: the
  spaces and the tab at the end of this line are lost.
\<close>

theorem import_file_counterexample:
  "import_file [''augustus.gff3'' \<mapsto> ''# QRST  '' @ [TAB, LF]] ''augustus.gff3'' = Inr [''# QRST''] \<and>
   map strip_line_terminators (file_lines (''# QRST  '' @ [TAB, LF])) = [''# QRST  '' @ [TAB]]"
  by code_simp

text \<open>
  Claim C8, amended. For a readable file the line source returns the lines in order
  (together they are the text of the file), each cut before its trailing whitespace:
  what is removed is whitespace only, what is kept does not end in whitespace, and
  nothing else is changed.
\<close>

theorem import_file_strips_trailing_whitespace:
  assumes "fs input_file = Some f_in"
  shows "import_file fs input_file = Inr (map rstrip (file_lines f_in)) \<and>
         concat (file_lines f_in) = universal_newlines f_in \<and>
         (\<forall>l\<in>set (file_lines f_in).
            l = rstrip l @ drop (length (rstrip l)) l \<and>
            list_all isspace (drop (length (rstrip l)) l) \<and>
            (rstrip l = [] \<or> \<not> isspace (last (rstrip l))))"
proof -
  have a: "l = rstrip l @ drop (length (rstrip l)) l \<and> list_all isspace (drop (length (rstrip l)) l)"
    for l
  proof -
    have "drop (length (rstrip l)) l = rev (takeWhile isspace (rev l))"
      using rstrip_split [of l] by (metis append_eq_conv_conj)
    then show ?thesis
      using rstrip_split [of l] rstrip_suffix_space [of l] by simp
  qed
  show ?thesis
    using assms a rstrip_no_trailing_space
    by (simp add: import_file_def file_lines_def iter_lines_concat)
qed

theorem import_file_strips_trailing_whitespace_witness:
  "[''augustus.gff3'' \<mapsto> ''# QRST  '' @ [TAB, CR, LF] @ ''# UVWY]''] ''augustus.gff3'' =
     Some (''# QRST  '' @ [TAB, CR, LF] @ ''# UVWY]'') \<and>
   import_file [''augustus.gff3'' \<mapsto> ''# QRST  '' @ [TAB, CR, LF] @ ''# UVWY]''] ''augustus.gff3'' =
     Inr [''# QRST'', ''# UVWY]'']"
proof -
  let ?txt = "''# QRST  '' @ [TAB, CR, LF] @ ''# UVWY]''"
  have 1: "[''augustus.gff3'' \<mapsto> ?txt] ''augustus.gff3'' = Some ?txt"
    by simp
  have 2: "map rstrip (file_lines ?txt) = [''# QRST'', ''# UVWY]'']"
    by code_simp
  from import_file_strips_trailing_whitespace
         [of "[''augustus.gff3'' \<mapsto> ?txt]" "''augustus.gff3''" ?txt, OF 1] 1
  show ?thesis
    unfolding 2 by blast
qed

section \<open>The tool invokers\<close>

lemma run_augustus_skip:
  fixes st :: "'w run_state"
  assumes "os_glob os (world st) (path_join output_dir ''augustus.gff3'') \<noteq> []"
  shows "run_augustus os d_conf masked_assembly output_dir species st =
           Inr (st\<lparr>debug_log := debug_log st @
                  [(logger_time, ''START: Augustus''),
                   (logger_txt, ''[Note] Running Augustus has already been finished''),
                   (logger_time, ''DONE : Augustus'')]\<rparr>)"
  using assms by (simp add: run_augustus_def debug_def)

lemma run_augustus_run:
  fixes st :: "'w run_state"
  assumes "os_glob os (world st) (path_join output_dir ''augustus.gff3'') = []"
    and "d_conf ''AUGUSTUS_PATH'' = Some augustus_path"
    and "command = augustus_command augustus_path masked_assembly species
                     (path_join output_dir ''augustus.gff3'')"
  shows "run_augustus os d_conf masked_assembly output_dir species st =
           Inr (st\<lparr>world := os_system os command (world st),
                    debug_log := debug_log st @
                      [(logger_time, ''START: Augustus''),
                       (logger_txt, ''[Run] '' @ command),
                       (logger_time, ''DONE : Augustus'')],
                    executed := executed st @ [command]\<rparr>)"
  using assms by (simp add: run_augustus_def debug_def run_command_def Let_def)

lemma run_augustus_twice:
  fixes st :: "'w run_state"
  assumes "os_glob os (world st) (path_join output_dir ''augustus.gff3'') = []"
    and "d_conf ''AUGUSTUS_PATH'' = Some augustus_path"
    and "command = augustus_command augustus_path masked_assembly species
                     (path_join output_dir ''augustus.gff3'')"
    and "os_glob os (os_system os command (world st)) (path_join output_dir ''augustus.gff3'') \<noteq> []"
    and "run_augustus os d_conf masked_assembly output_dir species st = Inr st1"
  shows "run_augustus os d_conf masked_assembly output_dir species st1 =
           Inr (st\<lparr>world := os_system os command (world st),
                    debug_log := debug_log st @
                      [(logger_time, ''START: Augustus''),
                       (logger_txt, ''[Run] '' @ command),
                       (logger_time, ''DONE : Augustus''),
                       (logger_time, ''START: Augustus''),
                       (logger_txt, ''[Note] Running Augustus has already been finished''),
                       (logger_time, ''DONE : Augustus'')],
                    executed := executed st @ [command]\<rparr>)"
proof -
  have "st1 = st\<lparr>world := os_system os command (world st),
                    debug_log := debug_log st @
                      [(logger_time, ''START: Augustus''),
                       (logger_txt, ''[Run] '' @ command),
                       (logger_time, ''DONE : Augustus'')],
                    executed := executed st @ [command]\<rparr>"
    using run_augustus_run
            [where os = os and st = st and d_conf = d_conf and command = command,
             OF assms(1,2,3)] assms(5)
    by simp
  moreover from this have "os_glob os (world st1) (path_join output_dir ''augustus.gff3'') \<noteq> []"
    using assms(4) by simp
  ultimately show ?thesis
    by (simp add: run_augustus_skip)
qed

lemma blastp_step_rerun_on_empty:
  fixes st :: "'w run_state"
  assumes "d_conf ''BLASTP_PATH'' = Some blastp_bin"
    and "os_glob os (world st) (splitext_root query_fasta @ ''.blastp'') = [] \<or>
         os_stat_size os (world st) (splitext_root query_fasta @ ''.blastp'') = Some 0"
  shows "blastp_step os d_conf query_fasta db_fasta log_dir num_cores st =
           Inr (run_command os
                  (blastp_command blastp_bin query_fasta db_fasta
                     (splitext_root query_fasta @ ''.blastp'') num_cores
                     (path_join log_dir ''blastp.log''))
                  st)"
  using assms by (auto simp add: blastp_step_def Let_def)

text \<open>
  Claim C9. \<open>run_augustus\<close> skips the command and logs a note when its output is there
  (\<open>run_augustus_skip\<close>, \<open>run_augustus_twice\<close>), and the search of \<open>run_blastp\<close> runs
  again on an output of zero bytes (\<open>blastp_step_rerun_on_empty\<close>). But when the output
  of the search is there and not empty, the search step runs no command and logs
  nothing: the state comes back as it was, without the skip note that the two other
  steps write.
\<close>

theorem blastp_skip_logs_no_note:
  fixes st :: "'w run_state"
  assumes "d_conf ''BLASTP_PATH'' = Some blastp_bin"
    and "os_glob os (world st) (splitext_root query_fasta @ ''.blastp'') \<noteq> []"
    and "os_stat_size os (world st) (splitext_root query_fasta @ ''.blastp'') = Some n"
    and "n \<noteq> 0"
  shows "blastp_step os d_conf query_fasta db_fasta log_dir num_cores st = Inr st"
  using assms by (simp add: blastp_step_def Let_def)

theorem blastp_skip_logs_no_note_witness:
  "example_conf ''BLASTP_PATH'' = Some ''blastp'' \<and>
   os_glob example_os (world example_state) (splitext_root ''query.faa'' @ ''.blastp'') \<noteq> [] \<and>
   os_stat_size example_os (world example_state) (splitext_root ''query.faa'' @ ''.blastp'') =
     Some 1000 \<and>
   blastp_step example_os example_conf ''query.faa'' ''db.faa'' ''logs'' 4 example_state =
     Inr example_state \<and>
   run_blastp example_os example_conf ''query.faa'' ''db.faa'' ''logs'' 4 example_state =
     Inr (example_state\<lparr>debug_log :=
            [(logger_txt, ''[Note] Running makeblastdb has been already finished'')]\<rparr>)"
proof -
  have 1: "example_conf ''BLASTP_PATH'' = Some ''blastp''"
    by (simp add: example_conf_def)
  have 2: "os_glob example_os (world example_state) (splitext_root ''query.faa'' @ ''.blastp'') \<noteq> []"
    by code_simp
  have 3: "os_stat_size example_os (world example_state) (splitext_root ''query.faa'' @ ''.blastp'') =
     Some 1000"
    by code_simp
  have 4: "(1000::nat) \<noteq> 0"
    by simp
  have 5: "run_blastp example_os example_conf ''query.faa'' ''db.faa'' ''logs'' 4 example_state =
     Inr (example_state\<lparr>debug_log :=
            [(logger_txt, ''[Note] Running makeblastdb has been already finished'')]\<rparr>)"
    by code_simp
  from blastp_skip_logs_no_note
         [where d_conf = example_conf and os = example_os and st = example_state
            and query_fasta = "''query.faa''" and db_fasta = "''db.faa''"
            and log_dir = "''logs''" and num_cores = 4, OF 1 2 3 4] 1 2 3 5
  show ?thesis by blast
qed

end
